theory Spec2Isabelle
  imports Main
begin

section \<open>Python values used by the adapters\<close>

text \<open>
  Python \<^verbatim>\<open>str\<close> values are modelled as \<^typ>\<open>string\<close>, read as the UTF-8 bytes of the
  text. Every character the code below tests for or inserts is ASCII, so a test on a byte
  is the test on the code point. Exceptions are values of \<open>error\<close>; a function that
  can raise returns \<open>error + 'a\<close> with \<open>Inl\<close> for the exception.
\<close>

datatype error = IndexError | ValueError | InvalidColor

definition bind_err :: "error + 'a \<Rightarrow> ('a \<Rightarrow> error + 'b) \<Rightarrow> error + 'b" where
  "bind_err m f = (case m of Inl e \<Rightarrow> Inl e | Inr v \<Rightarrow> f v)"

text \<open>\<^verbatim>\<open>xs[i]\<close> on a Python list: a negative index counts from the end, an index out of
  range raises IndexError.\<close>

definition py_index :: "'a list \<Rightarrow> int \<Rightarrow> error + 'a" where
  "py_index xs i =
     (if 0 \<le> i \<and> i < int (length xs) then Inr (xs ! nat i)
      else if i < 0 \<and> - int (length xs) \<le> i then Inr (xs ! nat (int (length xs) + i))
      else Inl IndexError)"

text \<open>\<^verbatim>\<open>"{}".format(n)\<close> for an integer \<open>n\<close>: its decimal digits, with a minus sign
  when negative.\<close>

definition digit_char :: "nat \<Rightarrow> char" where
  "digit_char d = char_of (48 + d)"

function str_nat :: "nat \<Rightarrow> string" where
  "str_nat n = (if n < 10 then [digit_char n] else str_nat (n div 10) @ [digit_char (n mod 10)])"
  by pat_completeness auto
termination
  by (relation "measure (\<lambda>n. n)") auto

declare str_nat.simps [simp del]

definition str_int :: "int \<Rightarrow> string" where
  "str_int i = (if i < 0 then CHR ''-'' # str_nat (nat (- i)) else str_nat (nat i))"

text \<open>\<^verbatim>\<open>s.replace(c, r)\<close> for a one-character \<open>c\<close>: every occurrence is replaced, left to
  right. \<^verbatim>\<open>re.sub(p, r, s)\<close> with a pattern \<open>p\<close> that matches exactly the one character
  \<open>c\<close> and a template that expands to the fixed string \<open>r\<close> computes the same.\<close>

definition replace_char :: "char \<Rightarrow> string \<Rightarrow> string \<Rightarrow> string" where
  "replace_char c r s = concat (map (\<lambda>x. if x = c then r else [x]) s)"

section \<open>Style model\<close>

text \<open>
  Modelled from the spec: \<^verbatim>\<open>models.py\<close> (Color, TextStyle, RichText, Message) is not among
  the sources. Section 3 of the specification gives a TextStyle the attributes bold, italic,
  underline and an optional colour pair of a foreground and an optional background; the
  adapters read the pair as \<^verbatim>\<open>ts.color.fg\<close> and \<^verbatim>\<open>ts.color.bg\<close>. A RichText is the ordered
  sequence of (style, text) runs.
\<close>

record color =
  fg :: int
  bg :: "int option"

record textstyle =
  bold :: bool
  italic :: bool
  underline :: bool
  color :: "color option"

type_synonym richtext = "(textstyle \<times> string) list"

text \<open>Modelled from the spec: the accessors of TextStyle. \<open>is_normal\<close> is true iff no
  bold, italic, underline and no colour (section 4.1).\<close>

definition is_bold :: "textstyle \<Rightarrow> bool" where
  "is_bold ts = bold ts"

definition is_italic :: "textstyle \<Rightarrow> bool" where
  "is_italic ts = italic ts"

definition is_underline :: "textstyle \<Rightarrow> bool" where
  "is_underline ts = underline ts"

definition has_color :: "textstyle \<Rightarrow> bool" where
  "has_color ts = (color ts \<noteq> None)"

definition is_normal :: "textstyle \<Rightarrow> bool" where
  "is_normal ts = (\<not> bold ts \<and> \<not> italic ts \<and> \<not> underline ts \<and> color ts = None)"

text \<open>Modelled from the spec: \<^verbatim>\<open>RichText.toPlain()\<close> concatenates all run texts, ignoring
  the styles (section 3).\<close>

definition toPlain :: "richtext \<Rightarrow> string" where
  "toPlain rt = concat (map snd rt)"

text \<open>Modelled from the spec: construction of a TextStyle requires the foreground of its
  colour pair, and the background when given, to lie in \<open>[0,16]\<close>; an index outside is
  rejected with InvalidColor (sections 4.1 and 7). The arguments are the keyword arguments
  \<^verbatim>\<open>color\<close>, \<^verbatim>\<open>bold\<close>, \<^verbatim>\<open>italic\<close> and \<^verbatim>\<open>underline\<close>.\<close>

definition valid_index :: "int \<Rightarrow> bool" where
  "valid_index i = (0 \<le> i \<and> i \<le> 16)"

definition valid_color :: "color option \<Rightarrow> bool" where
  "valid_color c =
     (case c of
        None \<Rightarrow> True
      | Some p \<Rightarrow> valid_index (fg p) \<and> (case bg p of None \<Rightarrow> True | Some j \<Rightarrow> valid_index j))"

definition Color :: "int \<Rightarrow> int option \<Rightarrow> color" where
  "Color f b = \<lparr>fg = f, bg = b\<rparr>"

definition TextStyle :: "color option \<Rightarrow> bool \<Rightarrow> bool \<Rightarrow> bool \<Rightarrow> error + textstyle" where
  "TextStyle c b i u =
     (if valid_color c then Inr \<lparr>bold = b, italic = i, underline = u, color = c\<rparr>
      else Inl InvalidColor)"

definition normal_style :: textstyle where
  "normal_style = \<lparr>bold = False, italic = False, underline = False, color = None\<rparr>"

text \<open>The truth value Python gives \<^verbatim>\<open>ts.color.bg\<close> in \<^verbatim>\<open>if ts.color.bg:\<close> : None and 0 are
  false.\<close>

definition bg_truthy :: "color \<Rightarrow> bool" where
  "bg_truthy c = (case bg c of None \<Rightarrow> False | Some i \<Rightarrow> i \<noteq> 0)"

section \<open>IRC renderer (IRC.py)\<close>

text \<open>
  Modelled from the spec: class \<^verbatim>\<open>IRCCtrl\<close> of \<^verbatim>\<open>textformat.py\<close> is not among the sources.
  Section 4.2 names its members, the IRC control characters for bold, italic, underline,
  color and reset; their values are the bytes the IRC convention assigns them.
\<close>

definition BOLD :: char where "BOLD = CHR 0x02"
definition COLOR :: char where "COLOR = CHR 0x03"
definition ITALIC :: char where "ITALIC = CHR 0x1D"
definition UNDERLINE :: char where "UNDERLINE = CHR 0x1F"
definition RESET :: char where "RESET = CHR 0x0F"

text \<open>The list \<^verbatim>\<open>ctrl\<close> that \<^verbatim>\<open>IRCHandle.formatRichText\<close> builds for a run that is not
  normal, joined.\<close>

definition irc_color_arg :: "color \<Rightarrow> string" where
  "irc_color_arg c =
     (if bg_truthy c then str_int (fg c) @ '','' @ str_int (the (bg c))
      else str_int (fg c))"

definition irc_ctrl :: "textstyle \<Rightarrow> string" where
  "irc_ctrl ts =
     (if is_bold ts then [BOLD] else []) @
     (if is_italic ts then [ITALIC] else []) @
     (if is_underline ts then [UNDERLINE] else []) @
     (if has_color ts then COLOR # irc_color_arg (the (color ts)) else [])"

text \<open>One iteration of the loop of \<^verbatim>\<open>IRCHandle.formatRichText\<close> on the accumulator
  \<^verbatim>\<open>formated_text\<close>, and the loop.\<close>

definition irc_step :: "string \<Rightarrow> textstyle \<times> string \<Rightarrow> string" where
  "irc_step formated_text run =
     (case run of (ts, text) \<Rightarrow>
        if text = [] then formated_text
        else if is_normal ts then formated_text @ text
        else formated_text @ irc_ctrl ts @ text @ [RESET])"

fun irc_loop :: "string \<Rightarrow> richtext \<Rightarrow> string" where
  "irc_loop formated_text [] = formated_text"
| "irc_loop formated_text (run # rich_text) = irc_loop (irc_step formated_text run) rich_text"

definition IRCHandle_formatRichText :: "richtext \<Rightarrow> string" where
  "IRCHandle_formatRichText rich_text = irc_loop [] rich_text"

section \<open>BBCode renderer (DiscourseBabble.py)\<close>

definition IRC_COLOR_RGB :: "string list" where
  "IRC_COLOR_RGB =
     [''#ffffff'', ''#000000'', ''#00007f'', ''#009300'', ''#ff0000'', ''#7f0000'',
      ''#9c009c'', ''#fc7f00'', ''#ffff00'', ''#00fc00'', ''#009300'', ''#00ffff'',
      ''#0000fc'', ''#ff00ff'', ''#7f7f7f'', ''#d2d2d2'', ''#888'']"

text \<open>The local functions of \<^verbatim>\<open>DiscourseBabbleHandle.formatRichText\<close>; each closes over
  the style \<open>ts\<close> of the run. A palette lookup can raise IndexError.\<close>

definition bb_bold :: "textstyle \<Rightarrow> string \<Rightarrow> string" where
  "bb_bold ts text = (if \<not> is_bold ts then text else ''[b]'' @ text @ ''[/b]'')"

definition bb_italic :: "textstyle \<Rightarrow> string \<Rightarrow> string" where
  "bb_italic ts text = (if \<not> is_italic ts then text else ''[i]'' @ text @ ''[/i]'')"

definition bb_underline :: "textstyle \<Rightarrow> string \<Rightarrow> string" where
  "bb_underline ts text = (if \<not> is_underline ts then text else ''[u]'' @ text @ ''[/u]'')"

definition fgcolor :: "string \<Rightarrow> int \<Rightarrow> error + string" where
  "fgcolor text c =
     bind_err (py_index IRC_COLOR_RGB c)
       (\<lambda>rgb. Inr (''[color='' @ rgb @ '']'' @ text @ ''[/color]''))"

definition bgcolor :: "string \<Rightarrow> int \<Rightarrow> error + string" where
  "bgcolor text c =
     bind_err (py_index IRC_COLOR_RGB c)
       (\<lambda>rgb. Inr (''[bgcolor='' @ rgb @ '']'' @ text @ ''[/bgcolor]''))"

definition bb_color :: "textstyle \<Rightarrow> string \<Rightarrow> error + string" where
  "bb_color ts text =
     (if \<not> has_color ts then Inr text
      else let c = the (color ts) in
        if bg_truthy c then bind_err (fgcolor text (fg c)) (\<lambda>t. bgcolor t (the (bg c)))
        else fgcolor text (fg c))"

definition bb_step :: "string \<Rightarrow> textstyle \<times> string \<Rightarrow> error + string" where
  "bb_step formated_text run =
     (case run of (ts, text) \<Rightarrow>
        if text = [] then Inr formated_text
        else if is_normal ts then Inr (formated_text @ text)
        else bind_err (bb_color ts text)
               (\<lambda>t. Inr (formated_text @ bb_underline ts (bb_italic ts (bb_bold ts t)))))"

fun bb_loop :: "string \<Rightarrow> richtext \<Rightarrow> error + string" where
  "bb_loop formated_text [] = Inr formated_text"
| "bb_loop formated_text (run # rich_text) =
     bind_err (bb_step formated_text run) (\<lambda>t. bb_loop t rich_text)"

definition DiscourseBabbleHandle_formatRichText :: "richtext \<Rightarrow> error + string" where
  "DiscourseBabbleHandle_formatRichText rich_text = bb_loop [] rich_text"

section \<open>HTML renderer (telegram.py)\<close>

text \<open>\<^verbatim>\<open>html.escape(s)\<close> of the Python library with its default \<^verbatim>\<open>quote=True\<close>: five
  replacements, the ampersand first.\<close>

definition html_escape :: "string \<Rightarrow> string" where
  "html_escape s =
     replace_char (CHR 0x27) ''&#x27;''
       (replace_char (CHR 0x22) ''&quot;''
         (replace_char CHR ''>'' ''&gt;''
           (replace_char CHR ''<'' ''&lt;''
             (replace_char CHR ''&'' ''&amp;'' s))))"

definition tg_step :: "bool \<Rightarrow> string \<Rightarrow> textstyle \<times> string \<Rightarrow> string" where
  "tg_step escape md run =
     (case run of (ts, text0) \<Rightarrow>
        let text = (if escape then html_escape text0 else text0) in
        if is_bold ts then md @ ''<b>'' @ text @ ''</b>''
        else if is_italic ts then md @ ''<i>'' @ text @ ''</i>''
        else md @ text)"

fun tg_loop :: "bool \<Rightarrow> string \<Rightarrow> richtext \<Rightarrow> string" where
  "tg_loop escape md [] = md"
| "tg_loop escape md (run # rich_text) = tg_loop escape (tg_step escape md run) rich_text"

definition Telegram_formatRichText :: "richtext \<Rightarrow> bool \<Rightarrow> string" where
  "Telegram_formatRichText rich_text escape = tg_loop escape [] rich_text"

section \<open>Escaping and sanitization (xss.py)\<close>

text \<open>
  \<^verbatim>\<open>replace(text, rs)\<close> applies \<^verbatim>\<open>re.sub(r[0], r[1], text)\<close> for each pair of \<open>rs\<close> in turn.
  Every pattern \<^verbatim>\<open>md_escape\<close> passes matches exactly one character (an escaped or plain
  literal) and every template expands to a fixed string (a doubled backslash in a template
  is one backslash), so a pair is given here as that character and that string.
\<close>

fun replace :: "string \<Rightarrow> (char \<times> string) list \<Rightarrow> string" where
  "replace text [] = text"
| "replace text (r # rs) = replace (replace_char (fst r) (snd r) text) rs"

definition md_escape :: "string \<Rightarrow> string" where
  "md_escape text =
     replace text
       [(CHR ''*'', [CHR 0x5C, CHR ''*'']),
        (CHR ''#'', [CHR 0x5C, CHR ''#'']),
        (CHR ''/'', [CHR 0x5C, CHR ''/'']),
        (CHR ''('', [CHR 0x5C, CHR ''('']),
        (CHR '')'', [CHR 0x5C, CHR '')'']),
        (CHR ''['', [CHR 0x5C, CHR ''['']),
        (CHR '']'', [CHR 0x5C, CHR '']'']),
        (CHR ''<'', ''&lt;''),
        (CHR ''>'', ''&gt;''),
        (CHR ''_'', [CHR 0x5C, CHR ''_'']),
        (CHR 0x60, [CHR 0x5C, CHR 0x60])]"

text \<open>
  \<^verbatim>\<open>re.sub(r'<[^>]+>', '', message)\<close>: the scan goes left to right; at a \<open><\<close> the
  pattern takes the longest run of characters other than \<open>>\<close>, which must be non-empty
  and followed by a \<open>>\<close>; the match is dropped and the scan resumes behind it. Where the
  pattern does not match the character is kept.
\<close>

definition match_tag :: "string \<Rightarrow> string option" where
  "match_tag cs =
     (let body = takeWhile (\<lambda>x. x \<noteq> CHR ''>'') cs;
          rest = dropWhile (\<lambda>x. x \<noteq> CHR ''>'') cs
      in if body \<noteq> [] \<and> rest \<noteq> [] then Some (tl rest) else None)"

function re_sub_tags :: "string \<Rightarrow> string" where
  "re_sub_tags [] = []"
| "re_sub_tags (c # cs) =
     (if c = CHR ''<'' then
        (case match_tag cs of
           Some rest \<Rightarrow> re_sub_tags rest
         | None \<Rightarrow> c # re_sub_tags cs)
      else c # re_sub_tags cs)"
  by pat_completeness auto
termination
proof (relation "measure length")
  fix c :: char and cs rest :: string
  assume "match_tag cs = Some rest"
  then have "rest = tl (dropWhile (\<lambda>x. x \<noteq> CHR ''>'') cs)"
    by (simp add: match_tag_def Let_def split: if_splits)
  moreover have "length (dropWhile (\<lambda>x. x \<noteq> CHR ''>'') cs) \<le> length cs"
    by (rule length_dropWhile_le)
  ultimately show "(rest, c # cs) \<in> measure length"
    by simp
qed simp_all

subsection \<open>The library function \<^verbatim>\<open>html.unescape\<close>\<close>

text \<open>
  \<^verbatim>\<open>html.unescape\<close> of the Python library replaces every match of
  \<^verbatim>\<open>&(#[0-9]+;?|#[xX][0-9a-fA-F]+;?|[^\t\n\f <&#;]{1,32};?)\<close> by what
  \<^verbatim>\<open>_replace_charref\<close> returns for it. The table \<^verbatim>\<open>html.entities.html5\<close> of the named
  references (ASCII names) is the parameter \<open>html5\<close>. A code point is written into the
  string as its UTF-8 bytes.
\<close>

datatype charref = Dec string | Hex string | Named string

definition is_digit :: "char \<Rightarrow> bool" where
  "is_digit c = (c \<in> set ''0123456789'')"

definition is_hexdigit :: "char \<Rightarrow> bool" where
  "is_hexdigit c = (c \<in> set ''0123456789abcdefABCDEF'')"

definition hex_value :: "char \<Rightarrow> nat" where
  "hex_value c =
     (if c \<in> set ''abcdef'' then of_char c - 87
      else if c \<in> set ''ABCDEF'' then of_char c - 55
      else of_char c - 48)"

definition int_of_digits :: "nat \<Rightarrow> string \<Rightarrow> nat" where
  "int_of_digits base ds = foldl (\<lambda>n c. n * base + hex_value c) 0 ds"

definition name_char :: "char \<Rightarrow> bool" where
  "name_char c =
     (c \<notin> set [CHR 0x09, CHR 0x0A, CHR 0x0C, CHR '' '', CHR ''<'', CHR ''&'', CHR ''#'', CHR '';''])"

definition is_cont :: "char \<Rightarrow> bool" where
  "is_cont c = (128 \<le> (of_char c :: nat) \<and> (of_char c :: nat) < 192)"

text \<open>The longest prefix of at most \<open>k\<close> characters of the name class; the continuation
  bytes of a character do not count.\<close>

fun take_name :: "nat \<Rightarrow> string \<Rightarrow> string" where
  "take_name k [] = []"
| "take_name k (c # cs) =
     (if \<not> name_char c then []
      else if is_cont c then c # take_name k cs
      else (case k of 0 \<Rightarrow> [] | Suc k' \<Rightarrow> c # take_name k' cs))"

definition opt_semicolon :: "string \<Rightarrow> string" where
  "opt_semicolon cs = (case cs of [] \<Rightarrow> [] | c # _ \<Rightarrow> if c = CHR '';'' then [c] else [])"

text \<open>The match of the pattern behind an ampersand: the reference and the number of
  characters it takes.\<close>

definition match_charref :: "string \<Rightarrow> (charref \<times> nat) option" where
  "match_charref cs =
     (case cs of
        [] \<Rightarrow> None
      | c # ds \<Rightarrow>
          if c = CHR ''#'' then
            (let dec = takeWhile is_digit ds in
             if dec \<noteq> [] then
               Some (Dec dec, 1 + length dec + length (opt_semicolon (drop (length dec) ds)))
             else
               (case ds of
                  [] \<Rightarrow> None
                | x # hs \<Rightarrow>
                    let hex = takeWhile is_hexdigit hs in
                    if x \<in> set ''xX'' \<and> hex \<noteq> [] then
                      Some (Hex hex, 2 + length hex + length (opt_semicolon (drop (length hex) hs)))
                    else None))
          else
            (let name = take_name 32 cs in
             if name \<noteq> [] then
               Some (Named (name @ opt_semicolon (drop (length name) cs)),
                     length name + length (opt_semicolon (drop (length name) cs)))
             else None))"

definition invalid_charrefs :: "(nat \<times> nat) list" where
  "invalid_charrefs =
     [(0x00, 0xfffd), (0x0d, 0x0d), (0x80, 0x20ac), (0x81, 0x81), (0x82, 0x201a),
      (0x83, 0x0192), (0x84, 0x201e), (0x85, 0x2026), (0x86, 0x2020), (0x87, 0x2021),
      (0x88, 0x02c6), (0x89, 0x2030), (0x8a, 0x0160), (0x8b, 0x2039), (0x8c, 0x0152),
      (0x8d, 0x8d), (0x8e, 0x017d), (0x8f, 0x8f), (0x90, 0x90), (0x91, 0x2018),
      (0x92, 0x2019), (0x93, 0x201c), (0x94, 0x201d), (0x95, 0x2022), (0x96, 0x2013),
      (0x97, 0x2014), (0x98, 0x02dc), (0x99, 0x2122), (0x9a, 0x0161), (0x9b, 0x203a),
      (0x9c, 0x0153), (0x9d, 0x9d), (0x9e, 0x017e), (0x9f, 0x0178)]"

definition invalid_codepoints :: "nat list" where
  "invalid_codepoints =
     [0x1..<0x9] @ [0xe..<0x20] @ [0x7f..<0xa0] @ [0xfdd0..<0xfdf0] @
     [0xb, 0xfffe, 0xffff, 0x1fffe, 0x1ffff, 0x2fffe, 0x2ffff, 0x3fffe, 0x3ffff,
      0x4fffe, 0x4ffff, 0x5fffe, 0x5ffff, 0x6fffe, 0x6ffff, 0x7fffe, 0x7ffff,
      0x8fffe, 0x8ffff, 0x9fffe, 0x9ffff, 0xafffe, 0xaffff, 0xbfffe, 0xbffff,
      0xcfffe, 0xcffff, 0xdfffe, 0xdffff, 0xefffe, 0xeffff, 0xffffe, 0xfffff,
      0x10fffe, 0x10ffff]"

text \<open>\<^verbatim>\<open>chr(n)\<close> as UTF-8 bytes, for a code point \<open>n\<close> up to \<open>0x10FFFF\<close>.\<close>

definition py_chr :: "nat \<Rightarrow> string" where
  "py_chr n =
     (if n < 0x80 then [char_of n]
      else if n < 0x800 then [char_of (0xC0 + n div 64), char_of (0x80 + n mod 64)]
      else if n < 0x10000 then
        [char_of (0xE0 + n div 4096), char_of (0x80 + n div 64 mod 64), char_of (0x80 + n mod 64)]
      else
        [char_of (0xF0 + n div 262144), char_of (0x80 + n div 4096 mod 64),
         char_of (0x80 + n div 64 mod 64), char_of (0x80 + n mod 64)])"

definition numeric_charref :: "nat \<Rightarrow> string" where
  "numeric_charref num =
     (case map_of invalid_charrefs num of
        Some cp \<Rightarrow> py_chr cp
      | None \<Rightarrow>
          if (0xD800 \<le> num \<and> num \<le> 0xDFFF) \<or> num > 0x10FFFF then py_chr 0xFFFD
          else if num \<in> set invalid_codepoints then []
          else py_chr num)"

text \<open>The loop \<^verbatim>\<open>for x in range(len(s)-1, 1, -1)\<close> that looks for the longest prefix of
  \<open>s\<close> in the table.\<close>

fun longest_name :: "(string \<Rightarrow> string option) \<Rightarrow> string \<Rightarrow> nat \<Rightarrow> string option" where
  "longest_name html5 s 0 = None"
| "longest_name html5 s (Suc x) =
     (if Suc x \<le> 1 then None
      else (case html5 (take (Suc x) s) of
              Some v \<Rightarrow> Some (v @ drop (Suc x) s)
            | None \<Rightarrow> longest_name html5 s x))"

text \<open>
  \<^verbatim>\<open>int(s)\<close> of a decimal string raises ValueError when the string has more than
  \<^verbatim>\<open>sys.get_int_max_str_digits()\<close> characters, 4300 unless the interpreter is configured
  otherwise (Python 3.11, and the security releases of the earlier versions); leading
  zeros count. The conversion of a hexadecimal string has no such limit. The exception
  leaves \<^verbatim>\<open>_replace_charref\<close>, \<^verbatim>\<open>html.unescape\<close> and \<^verbatim>\<open>cooked_unescape\<close>, none of which
  catches it.
\<close>

definition int_max_str_digits :: nat where
  "int_max_str_digits = 4300"

definition replace_charref :: "(string \<Rightarrow> string option) \<Rightarrow> charref \<Rightarrow> error + string" where
  "replace_charref html5 r =
     (case r of
        Dec ds \<Rightarrow>
          if length ds > int_max_str_digits then Inl ValueError
          else Inr (numeric_charref (int_of_digits 10 ds))
      | Hex hs \<Rightarrow> Inr (numeric_charref (int_of_digits 16 hs))
      | Named s \<Rightarrow>
          (case html5 s of
             Some v \<Rightarrow> Inr v
           | None \<Rightarrow>
               (case longest_name html5 s (length s - 1) of
                  Some v \<Rightarrow> Inr v
                | None \<Rightarrow> Inr (CHR ''&'' # s))))"

function charref_sub :: "(string \<Rightarrow> string option) \<Rightarrow> string \<Rightarrow> error + string" where
  "charref_sub html5 [] = Inr []"
| "charref_sub html5 (c # cs) =
     (if c = CHR ''&'' then
        (case match_charref cs of
           Some (r, n) \<Rightarrow>
             bind_err (replace_charref html5 r)
               (\<lambda>v. bind_err (charref_sub html5 (drop n cs)) (\<lambda>t. Inr (v @ t)))
         | None \<Rightarrow> bind_err (charref_sub html5 cs) (\<lambda>t. Inr (c # t)))
      else bind_err (charref_sub html5 cs) (\<lambda>t. Inr (c # t)))"
  by pat_completeness auto
termination
  by (relation "measure (\<lambda>(h, s). length s)") auto

definition html_unescape :: "(string \<Rightarrow> string option) \<Rightarrow> string \<Rightarrow> error + string" where
  "html_unescape html5 s = (if CHR ''&'' \<notin> set s then Inr s else charref_sub html5 s)"

definition cooked_unescape :: "(string \<Rightarrow> string option) \<Rightarrow> string \<Rightarrow> error + string" where
  "cooked_unescape html5 message = html_unescape html5 (re_sub_tags message)"

section \<open>Inbound IRC messages (IRC.py)\<close>

text \<open>
  Modelled from the spec: class \<^verbatim>\<open>Message\<close> and the enumerations \<^verbatim>\<open>ChannelType\<close> and
  \<^verbatim>\<open>MessageType\<close> of \<^verbatim>\<open>models.py\<close> are not among the sources; section 3 lists their
  members and attributes. The constructor stores its arguments.
\<close>

datatype ChannelType = IRC | Telegram | XMPP | DiscourseBabble

datatype MessageType =
  Text | Command | Photo | Sticker | Video | Animation | Audio | File | Location | Event

record message =
  channel :: ChannelType
  sender :: string
  receiver :: string
  content :: string
  mtype :: MessageType
  date :: string
  time :: string
  rich_text :: "richtext option"

record event =
  source :: string
  target :: string
  arguments :: "string list"

text \<open>
  \<^verbatim>\<open>IRCHandle.on_privmsg\<close>. The parser \<^verbatim>\<open>TextFormatter.parseIRC\<close>, the predicate
  \<^verbatim>\<open>self.is_cmd\<close> of the base class and the clock \<^verbatim>\<open>get_now_date_time()\<close> are parameters.
  \<^verbatim>\<open>event.source.index('!')\<close> raises ValueError when there is no \<open>!\<close>, and
  \<^verbatim>\<open>event.arguments[0]\<close> raises IndexError on an empty list. The result is the message
  handed to \<^verbatim>\<open>send_to_bus\<close>, or None when the sender is blacklisted.
\<close>

definition on_privmsg ::
  "(string \<Rightarrow> richtext) \<Rightarrow> (string \<Rightarrow> bool) \<Rightarrow> string \<times> string \<Rightarrow> string list \<Rightarrow> event
     \<Rightarrow> error + message option" where
  "on_privmsg parse is_cmd now blacklist ev =
     (if CHR ''!'' \<notin> set (source ev) then Inl ValueError
      else
        let irc_nick = takeWhile (\<lambda>x. x \<noteq> CHR ''!'') (source ev) in
        if irc_nick \<in> set blacklist then Inr None
        else
          (case arguments ev of
             [] \<Rightarrow> Inl IndexError
           | a # _ \<Rightarrow>
               let rt = parse a;
                   c = toPlain rt;
                   rt' = (if length rt = 1 \<and> is_normal (fst (hd rt)) then None else Some rt)
               in Inr (Some \<lparr>channel = IRC, sender = irc_nick, receiver = target ev,
                              content = c,
                              mtype = (if is_cmd c then Command else Text),
                              date = fst now, time = snd now, rich_text = rt'\<rparr>)))"

definition on_pubmsg ::
  "(string \<Rightarrow> richtext) \<Rightarrow> (string \<Rightarrow> bool) \<Rightarrow> string \<times> string \<Rightarrow> string list \<Rightarrow> event
     \<Rightarrow> error + message option" where
  "on_pubmsg parse is_cmd now blacklist ev = on_privmsg parse is_cmd now blacklist ev"

section \<open>The IRC parser\<close>

text \<open>
  Modelled from the spec: \<^verbatim>\<open>TextFormatter.parseIRC\<close> of \<^verbatim>\<open>textformat.py\<close> is not among the
  sources. Section 4.2: a single left-to-right scan that keeps a current style; each control
  character toggles or sets one attribute of the style and starts a new run boundary; a
  reset clears the style to normal and starts a new run; plain characters are appended to
  the text of the open run. Color control codes consume 1--2 following decimal-digit groups
  (foreground, optional \<open>,background\<close>) per the source format's own encoding; in that
  encoding, the one \<^verbatim>\<open>IRCHandle.formatRichText\<close> writes, a colour number has one or two
  digits, so a group is read as at most two digits. The style the parser builds must be
  constructed, and construction rejects an index outside \<open>[0,16]\<close> (section 4.1); since
  malformed color sequences are treated as literal text (no throw), the characters of
  such a sequence stay text and the style is unchanged. Runs with empty text are not
  recorded (section 3), except that the result always has a run, so that a string without
  control codes yields exactly one normal run.
\<close>

definition take_digits :: "string \<Rightarrow> string" where
  "take_digits s = takeWhile is_digit (take 2 s)"

text \<open>The colour a color control sets and the number of characters of its arguments.\<close>

definition color_args :: "string \<Rightarrow> (color \<times> nat) option" where
  "color_args s =
     (let f = take_digits s;
          b = (case drop (length f) s of
                 [] \<Rightarrow> []
               | c # r \<Rightarrow> if c = CHR '','' then take_digits r else []);
          col = Color (int (int_of_digits 10 f))
                  (if b = [] then None else Some (int (int_of_digits 10 b)))
      in if f \<noteq> [] \<and> valid_color (Some col)
         then Some (col, length f + (if b = [] then 0 else Suc (length b)))
         else None)"

definition close_run :: "textstyle \<Rightarrow> string \<Rightarrow> richtext \<Rightarrow> richtext" where
  "close_run style cur runs = (if cur = [] then runs else runs @ [(style, cur)])"

function parse_scan :: "textstyle \<Rightarrow> string \<Rightarrow> richtext \<Rightarrow> string \<Rightarrow> richtext" where
  "parse_scan style cur runs [] =
     (if cur = [] \<and> runs \<noteq> [] then runs else runs @ [(style, cur)])"
| "parse_scan style cur runs (x # s) =
     (if x = BOLD then
        parse_scan (style\<lparr>bold := \<not> bold style\<rparr>) [] (close_run style cur runs) s
      else if x = ITALIC then
        parse_scan (style\<lparr>italic := \<not> italic style\<rparr>) [] (close_run style cur runs) s
      else if x = UNDERLINE then
        parse_scan (style\<lparr>underline := \<not> underline style\<rparr>) [] (close_run style cur runs) s
      else if x = RESET then
        parse_scan normal_style [] (close_run style cur runs) s
      else if x = COLOR then
        (case color_args s of
           Some (c, n) \<Rightarrow>
             parse_scan (style\<lparr>color := Some c\<rparr>) [] (close_run style cur runs) (drop n s)
         | None \<Rightarrow> parse_scan style [] (close_run style cur runs) s)
      else parse_scan style (cur @ [x]) runs s)"
  by pat_completeness auto
termination
  by (relation "measure (\<lambda>(style, cur, runs, s). length s)") auto

definition parseIRC :: "string \<Rightarrow> richtext" where
  "parseIRC text = parse_scan normal_style [] [] text"

definition is_ctrl :: "char \<Rightarrow> bool" where
  "is_ctrl x = (x \<in> set [BOLD, ITALIC, UNDERLINE, RESET, COLOR])"

section \<open>The specification's statements as definitions\<close>

text \<open>The nesting the specification states for a BBCode run that is not normal: color
  outermost, then bold, then italic, then underline innermost.\<close>

definition spec_bb_run :: "textstyle \<Rightarrow> string \<Rightarrow> error + string" where
  "spec_bb_run ts text = bb_color ts (bb_bold ts (bb_italic ts (bb_underline ts text)))"

text \<open>The wrappers \<^verbatim>\<open>DiscourseBabbleHandle.formatRichText\<close> puts before and behind the text
  of a run, written out.\<close>

definition bb_open :: "textstyle \<Rightarrow> string" where
  "bb_open ts =
     (if underline ts then ''[u]'' else []) @
     (if italic ts then ''[i]'' else []) @
     (if bold ts then ''[b]'' else []) @
     (case color ts of
        None \<Rightarrow> []
      | Some c \<Rightarrow>
          (if bg_truthy c then ''[bgcolor='' @ IRC_COLOR_RGB ! nat (the (bg c)) @ '']'' else []) @
          ''[color='' @ IRC_COLOR_RGB ! nat (fg c) @ '']'')"

definition bb_close :: "textstyle \<Rightarrow> string" where
  "bb_close ts =
     (case color ts of
        None \<Rightarrow> []
      | Some c \<Rightarrow> ''[/color]'' @ (if bg_truthy c then ''[/bgcolor]'' else [])) @
     (if bold ts then ''[/b]'' else []) @
     (if italic ts then ''[/i]'' else []) @
     (if underline ts then ''[/u]'' else [])"

text \<open>Markdown escaping of one character as the specification words it: a backslash
  before each of \<open>* # / ( ) [ ] _\<close> and the backtick, entities for the angle brackets.\<close>

definition md_escape_char :: "char \<Rightarrow> string" where
  "md_escape_char c =
     (if c \<in> set [CHR ''*'', CHR ''#'', CHR ''/'', CHR ''('', CHR '')'', CHR ''['', CHR '']'',
                   CHR ''_'', CHR 0x60]
      then [CHR 0x5C, c]
      else if c = CHR ''<'' then ''&lt;''
      else if c = CHR ''>'' then ''&gt;''
      else [c])"

text \<open>HTML escaping of one character: the five metacharacters become entities.\<close>

definition html_escape_char :: "char \<Rightarrow> string" where
  "html_escape_char c =
     (if c = CHR ''&'' then ''&amp;''
      else if c = CHR ''<'' then ''&lt;''
      else if c = CHR ''>'' then ''&gt;''
      else if c = CHR 0x22 then ''&quot;''
      else if c = CHR 0x27 then ''&#x27;''
      else [c])"

text \<open>Whether the pattern \<^verbatim>\<open><[^>]+>\<close> matches somewhere in a string.\<close>

fun has_tag :: "string \<Rightarrow> bool" where
  "has_tag [] = False"
| "has_tag (c # cs) = (if c = CHR ''<'' \<and> match_tag cs \<noteq> None then True else has_tag cs)"

text \<open>An excerpt of the library's table \<^verbatim>\<open>html.entities.html5\<close>: the four named
  references that \<^verbatim>\<open>html.escape\<close> produces.\<close>

definition html5_excerpt :: "string \<Rightarrow> string option" where
  "html5_excerpt = map_of [(''amp;'', ''&''), (''lt;'', ''<''), (''gt;'', ''>''), (''quot;'', [CHR 0x22])]"


text \<open>The runs for which the IRC rendering is read back to the same plain text. The
  text holds no control character and the colour indices are in the palette range. The
  text of a coloured run is not read as part of the colour arguments: it does not begin
  with a digit behind a one-digit number (the last number written, background or
  foreground), and it does not begin with a comma and a digit behind a foreground written
  without a background.\<close>

definition last_number :: "color \<Rightarrow> int" where
  "last_number c = (if bg_truthy c then the (bg c) else fg c)"

definition starts_digit :: "string \<Rightarrow> bool" where
  "starts_digit s = (case s of [] \<Rightarrow> False | d # _ \<Rightarrow> is_digit d)"

definition starts_comma_digit :: "string \<Rightarrow> bool" where
  "starts_comma_digit s = (case s of [] \<Rightarrow> False | c # r \<Rightarrow> c = CHR '','' \<and> starts_digit r)"

definition absorbed :: "color \<Rightarrow> string \<Rightarrow> bool" where
  "absorbed c text =
     ((last_number c < 10 \<and> starts_digit text) \<or> (\<not> bg_truthy c \<and> starts_comma_digit text))"

definition roundtrip_safe :: "textstyle \<times> string \<Rightarrow> bool" where
  "roundtrip_safe run =
     (case run of (ts, text) \<Rightarrow>
        list_all (\<lambda>x. \<not> is_ctrl x) text \<and> valid_color (color ts) \<and>
        (case color ts of None \<Rightarrow> True | Some c \<Rightarrow> \<not> absorbed c text))"

text \<open>Whether a string holds a decimal character reference too long for \<^verbatim>\<open>int\<close>: an
  ampersand, a \<open>#\<close> and more than 4300 digits.\<close>

definition long_decimal :: "string \<Rightarrow> bool" where
  "long_decimal cs =
     (case cs of
        [] \<Rightarrow> False
      | d # ds \<Rightarrow> d = CHR ''#'' \<and> length (takeWhile is_digit ds) > int_max_str_digits)"

fun has_long_ref :: "string \<Rightarrow> bool" where
  "has_long_ref [] = False"
| "has_long_ref (c # cs) = (if c = CHR ''&'' \<and> long_decimal cs then True else has_long_ref cs)"

text \<open>Whether a string ends inside an unclosed tag: it has a \<open><\<close> with no \<open>>\<close>
  behind it.\<close>

definition open_tag :: "string \<Rightarrow> bool" where
  "open_tag pre = (CHR ''<'' \<in> set (takeWhile (\<lambda>x. x \<noteq> CHR ''>'') (rev pre)))"

text \<open>The five characters \<^verbatim>\<open>html.escape\<close> replaces.\<close>

definition html_meta :: "char list" where
  "html_meta = [CHR ''&'', CHR ''<'', CHR ''>'', CHR 0x22, CHR 0x27]"

section \<open>Properties of the renderers\<close>

subsection \<open>The loops as concatenations\<close>

lemma irc_loop_acc: "irc_loop acc rt = acc @ irc_loop [] rt"
proof (induction rt arbitrary: acc)
  case Nil
  then show ?case by simp
next
  case (Cons run rt)
  have "irc_loop acc (run # rt) = irc_step acc run @ irc_loop [] rt"
    using Cons.IH [of "irc_step acc run"] by simp
  moreover have "irc_loop [] (run # rt) = irc_step [] run @ irc_loop [] rt"
    using Cons.IH [of "irc_step [] run"] by simp
  moreover have "irc_step acc run = acc @ irc_step [] run"
    by (cases run) (simp add: irc_step_def)
  ultimately show ?case by simp
qed

lemma irc_format_append:
  "IRCHandle_formatRichText (a @ b) = IRCHandle_formatRichText a @ IRCHandle_formatRichText b"
proof -
  have "irc_loop acc (a @ b) = irc_loop (irc_loop acc a) b" for acc
    by (induction a arbitrary: acc) simp_all
  then show ?thesis
    unfolding IRCHandle_formatRichText_def using irc_loop_acc [of "irc_loop [] a" b] by simp
qed

lemma irc_format_Cons:
  "IRCHandle_formatRichText (run # b) = irc_step [] run @ IRCHandle_formatRichText b"
  using irc_format_append [of "[run]" b] by (simp add: IRCHandle_formatRichText_def)

lemma tg_loop_acc: "tg_loop e md rt = md @ tg_loop e [] rt"
proof (induction rt arbitrary: md)
  case Nil
  then show ?case by simp
next
  case (Cons run rt)
  have "tg_loop e md (run # rt) = tg_step e md run @ tg_loop e [] rt"
    using Cons.IH [of "tg_step e md run"] by simp
  moreover have "tg_loop e [] (run # rt) = tg_step e [] run @ tg_loop e [] rt"
    using Cons.IH [of "tg_step e [] run"] by simp
  moreover have "tg_step e md run = md @ tg_step e [] run"
    by (cases run) (simp add: tg_step_def Let_def)
  ultimately show ?case by simp
qed

lemma tg_format_append:
  "Telegram_formatRichText (a @ b) e = Telegram_formatRichText a e @ Telegram_formatRichText b e"
proof -
  have "tg_loop e md (a @ b) = tg_loop e (tg_loop e md a) b" for md
    by (induction a arbitrary: md) simp_all
  then show ?thesis
    unfolding Telegram_formatRichText_def using tg_loop_acc [of e "tg_loop e [] a" b] by simp
qed

lemma tg_format_Cons:
  "Telegram_formatRichText (run # b) e = tg_step e [] run @ Telegram_formatRichText b e"
  using tg_format_append [of "[run]" b e] by (simp add: Telegram_formatRichText_def)

lemma bb_loop_acc:
  "bb_loop acc rt = bind_err (bb_loop [] rt) (\<lambda>t. Inr (acc @ t))"
proof (induction rt arbitrary: acc)
  case Nil
  then show ?case by (simp add: bind_err_def)
next
  case (Cons run rt)
  obtain ts tx where run: "run = (ts, tx)" by (cases run)
  show ?case
  proof (cases "bb_step [] run")
    case (Inl e)
    then have "bb_step acc run = Inl e"
      by (auto simp: run bb_step_def bind_err_def split: if_splits sum.splits)
    with Inl show ?thesis by (simp add: bind_err_def)
  next
    case (Inr t)
    then have "bb_step acc run = Inr (acc @ t)"
      by (auto simp: run bb_step_def bind_err_def split: if_splits sum.splits)
    with Inr show ?thesis
      using Cons.IH [of "acc @ t"] Cons.IH [of t]
      by (simp add: bind_err_def split: sum.splits)
  qed
qed

lemma bb_format_append:
  assumes "DiscourseBabbleHandle_formatRichText a = Inr ra"
    and "DiscourseBabbleHandle_formatRichText b = Inr rb"
  shows "DiscourseBabbleHandle_formatRichText (a @ b) = Inr (ra @ rb)"
proof -
  have "bb_loop acc (a @ b) = bind_err (bb_loop acc a) (\<lambda>t. bb_loop t b)" for acc
    by (induction a arbitrary: acc) (simp_all add: bind_err_def split: sum.splits)
  then have "bb_loop [] (a @ b) = bb_loop ra b"
    using assms(1) by (simp add: DiscourseBabbleHandle_formatRichText_def bind_err_def)
  also have "\<dots> = Inr (ra @ rb)"
    using assms(2) bb_loop_acc [of ra b]
    by (simp add: DiscourseBabbleHandle_formatRichText_def bind_err_def)
  finally show ?thesis by (simp add: DiscourseBabbleHandle_formatRichText_def)
qed

lemma bb_format_single:
  "DiscourseBabbleHandle_formatRichText [run] = bb_step [] run"
  by (simp add: DiscourseBabbleHandle_formatRichText_def bind_err_def split: sum.splits)

subsection \<open>Character replacement and \<^verbatim>\<open>html.escape\<close>\<close>

lemma replace_char_append:
  "replace_char c r (xs @ ys) = replace_char c r xs @ replace_char c r ys"
  by (simp add: replace_char_def)

lemma replace_char_Cons:
  "replace_char c r (x # xs) = (if x = c then r else [x]) @ replace_char c r xs"
  by (simp add: replace_char_def)

lemma replace_char_Nil: "replace_char c r [] = []"
  by (simp add: replace_char_def)

lemma html_escape_single: "html_escape [x] = html_escape_char x"
  by (simp add: html_escape_def html_escape_char_def replace_char_Cons replace_char_Nil)

lemma html_escape_Cons: "html_escape (x # xs) = html_escape_char x @ html_escape xs"
proof -
  have "html_escape ([x] @ xs) = html_escape [x] @ html_escape xs"
    unfolding html_escape_def by (simp only: replace_char_append)
  then show ?thesis by (simp add: html_escape_single)
qed

lemma html_escape_chars: "html_escape s = concat (map html_escape_char s)"
proof (induction s)
  case Nil
  show ?case by (simp add: html_escape_def replace_char_Nil)
next
  case (Cons x xs)
  then show ?case by (simp add: html_escape_Cons)
qed

lemma html_escape_no_meta:
  "CHR ''<'' \<notin> set (html_escape s) \<and> CHR ''>'' \<notin> set (html_escape s) \<and>
   CHR 0x22 \<notin> set (html_escape s) \<and> CHR 0x27 \<notin> set (html_escape s)"
  by (induction s) (auto simp: html_escape_chars html_escape_char_def)

subsection \<open>The palette\<close>

lemma palette_length: "length IRC_COLOR_RGB = 17"
  by (simp add: IRC_COLOR_RGB_def)

lemma palette_lookup:
  "valid_index i \<Longrightarrow> py_index IRC_COLOR_RGB i = Inr (IRC_COLOR_RGB ! nat i)"
  by (simp add: py_index_def palette_length valid_index_def Let_def)

lemma bb_color_valid:
  assumes "valid_color (color ts)"
  shows "bb_color ts text =
     Inr ((case color ts of
             None \<Rightarrow> []
           | Some c \<Rightarrow>
               (if bg_truthy c then ''[bgcolor='' @ IRC_COLOR_RGB ! nat (the (bg c)) @ '']'' else []) @
               ''[color='' @ IRC_COLOR_RGB ! nat (fg c) @ '']'') @
          text @
          (case color ts of
             None \<Rightarrow> []
           | Some c \<Rightarrow> ''[/color]'' @ (if bg_truthy c then ''[/bgcolor]'' else [])))"
proof (cases "color ts")
  case None
  then show ?thesis by (simp add: bb_color_def has_color_def)
next
  case (Some c)
  with assms have f: "valid_index (fg c)"
    by (simp add: valid_color_def)
  show ?thesis
  proof (cases "bg_truthy c")
    case True
    then obtain j where j: "bg c = Some j"
      by (auto simp: bg_truthy_def split: option.splits)
    with assms Some have "valid_index j"
      by (simp add: valid_color_def)
    with f j True Some show ?thesis
      by (simp add: bb_color_def has_color_def fgcolor_def bgcolor_def bind_err_def palette_lookup)
  next
    case False
    with f Some show ?thesis
      by (simp add: bb_color_def has_color_def fgcolor_def bind_err_def palette_lookup)
  qed
qed

lemma bb_step_valid:
  assumes "valid_color (color ts)" and "\<not> is_normal ts" and "text \<noteq> []"
  shows "bb_step acc (ts, text) = Inr (acc @ bb_open ts @ text @ bb_close ts)"
  using assms(2,3)
  by (simp add: bb_step_def bb_color_valid [OF assms(1)] bind_err_def bb_open_def bb_close_def
      bb_bold_def bb_italic_def bb_underline_def is_bold_def is_italic_def is_underline_def)

lemma bb_format_valid:
  "\<forall>run \<in> set rt. valid_color (color (fst run))
     \<Longrightarrow> \<exists>out. DiscourseBabbleHandle_formatRichText rt = Inr out"
proof (induction rt)
  case Nil
  then show ?case by (simp add: DiscourseBabbleHandle_formatRichText_def)
next
  case (Cons run rt)
  obtain ts tx where run: "run = (ts, tx)" by (cases run)
  from Cons obtain out where out: "DiscourseBabbleHandle_formatRichText rt = Inr out"
    by auto
  from Cons.prems run have v: "valid_color (color ts)" by simp
  have "\<exists>r. bb_step [] (ts, tx) = Inr r"
  proof (cases "tx = [] \<or> is_normal ts")
    case True
    then show ?thesis by (auto simp: bb_step_def)
  next
    case False
    then show ?thesis using bb_step_valid [OF v, of tx "[]"] by simp
  qed
  then obtain r where "DiscourseBabbleHandle_formatRichText [run] = Inr r"
    by (auto simp: run bb_format_single)
  from bb_format_append [OF this out] show ?case by simp
qed

section \<open>Theorems on the renderers\<close>

text \<open>
  C2, as it holds of the code. For every run of a RichText that is not normal and has
  non-empty text, with its colour indices in the palette range, the BBCode renderer emits
  the wrappers in the fixed nesting order underline outermost, then italic, then bold,
  then the background colour, and the foreground colour innermost, around the text.
\<close>

theorem C2_bbcode_nesting:
  assumes "DiscourseBabbleHandle_formatRichText a = Inr ra"
    and "DiscourseBabbleHandle_formatRichText b = Inr rb"
    and "\<not> is_normal ts" and "text \<noteq> []" and "valid_color (color ts)"
  shows "DiscourseBabbleHandle_formatRichText (a @ [(ts, text)] @ b) =
           Inr (ra @ bb_open ts @ text @ bb_close ts @ rb)"
proof -
  have "DiscourseBabbleHandle_formatRichText [(ts, text)] = Inr (bb_open ts @ text @ bb_close ts)"
    using bb_step_valid [OF assms(5,3,4), of "[]"] by (simp add: bb_format_single)
  from bb_format_append [OF this assms(2)] bb_format_append [OF assms(1)]
  show ?thesis by simp
qed

theorem C2_witness:
  "DiscourseBabbleHandle_formatRichText
     ([(normal_style, ''a'')] @
      [(\<lparr>bold = True, italic = True, underline = True, color = Some (Color 4 (Some 1))\<rparr>, ''x'')] @
      [(normal_style, ''b'')])
   = Inr ''a[u][i][b][bgcolor=#000000][color=#ff0000]x[/color][/bgcolor][/b][/i][/u]b''"
proof -
  have n: "DiscourseBabbleHandle_formatRichText [(normal_style, s)] = Inr s" for s
    by (simp add: bb_format_single bb_step_def normal_style_def is_normal_def)
  have "\<not> is_normal \<lparr>bold = True, italic = True, underline = True, color = Some (Color 4 (Some 1))\<rparr>"
    by (simp add: is_normal_def)
  moreover have "valid_color (color \<lparr>bold = True, italic = True, underline = True, color = Some (Color 4 (Some 1))\<rparr>)"
    by (simp add: valid_color_def Color_def valid_index_def)
  moreover have "''x'' \<noteq> []" by simp
  ultimately show ?thesis
    using C2_bbcode_nesting [OF n [of "''a''"] n [of "''b''"]]
    by (simp add: bb_open_def bb_close_def Color_def bg_truthy_def IRC_COLOR_RGB_def)
qed

text \<open>
  C2 as the specification states it (color outermost, underline innermost) fails: a bold
  run of colour 4 is rendered with the bold wrapper around the colour wrapper.
\<close>

theorem C2_counterexample:
  "DiscourseBabbleHandle_formatRichText
     [(\<lparr>bold = True, italic = False, underline = False, color = Some (Color 4 None)\<rparr>, ''x'')]
     = Inr ''[b][color=#ff0000]x[/color][/b]''
   \<and> spec_bb_run \<lparr>bold = True, italic = False, underline = False, color = Some (Color 4 None)\<rparr> ''x''
     = Inr ''[color=#ff0000][b]x[/b][/color]''"
  by (simp add: DiscourseBabbleHandle_formatRichText_def bb_step_def is_normal_def bind_err_def
      bb_color_def has_color_def Color_def bg_truthy_def fgcolor_def py_index_def IRC_COLOR_RGB_def
      bb_bold_def bb_italic_def bb_underline_def is_bold_def is_italic_def is_underline_def
      spec_bb_run_def)

text \<open>
  C3, as it holds of the code. For every run rendered by the Telegram renderer exactly one
  style wins by the precedence bold, then italic: a bold run is rendered bold whatever its
  other attributes, a run that is italic and not bold is rendered italic, and every other
  run is rendered as its bare text, whatever its colour and underline.
\<close>

theorem C3_flat_precedence:
  "Telegram_formatRichText (a @ [(ts, text)] @ b) e =
     Telegram_formatRichText a e @
     (if bold ts then ''<b>'' @ (if e then html_escape text else text) @ ''</b>''
      else if italic ts then ''<i>'' @ (if e then html_escape text else text) @ ''</i>''
      else (if e then html_escape text else text)) @
     Telegram_formatRichText b e"
  by (simp add: tg_format_append tg_format_Cons tg_step_def Let_def is_bold_def is_italic_def)

theorem C3_witness:
  "Telegram_formatRichText
     ([] @ [(\<lparr>bold = True, italic = True, underline = True, color = Some (Color 4 None)\<rparr>, ''hi'')] @ [])
     False = ''<b>hi</b>''"
  using C3_flat_precedence [of "[]"
      "\<lparr>bold = True, italic = True, underline = True, color = Some (Color 4 None)\<rparr>" "''hi''" "[]" False]
  by (simp add: Telegram_formatRichText_def)

text \<open>
  C3 as the specification states it (a run with a colour that is neither bold nor italic is
  rendered with its colour) fails: such a run is rendered exactly as the run without the
  colour.
\<close>

theorem C3_counterexample:
  "Telegram_formatRichText
     [(\<lparr>bold = False, italic = False, underline = False, color = Some (Color 4 None)\<rparr>, ''errors:'')] True
     = ''errors:''
   \<and> Telegram_formatRichText
     [(\<lparr>bold = False, italic = False, underline = False, color = None\<rparr>, ''errors:'')] True
     = ''errors:''"
  by (simp add: Telegram_formatRichText_def tg_step_def is_bold_def is_italic_def
      html_escape_chars html_escape_char_def)

text \<open>
  C7. The IRC and the BBCode renderer skip a run with empty text; the Telegram renderer
  has no such test, and for an empty bold run it emits the empty wrapper pair.
\<close>

theorem C7_telegram_empty_run:
  "Telegram_formatRichText [(\<lparr>bold = True, italic = False, underline = False, color = None\<rparr>, [])] True
     = ''<b></b>''"
  by (simp add: Telegram_formatRichText_def tg_step_def is_bold_def html_escape_def replace_char_Nil)

lemma irc_skips_empty:
  "IRCHandle_formatRichText (a @ [(ts, [])] @ b) = IRCHandle_formatRichText (a @ b)"
  by (simp add: irc_format_append irc_format_Cons irc_step_def)

lemma bb_skips_empty:
  assumes "DiscourseBabbleHandle_formatRichText a = Inr ra"
    and "DiscourseBabbleHandle_formatRichText b = Inr rb"
  shows "DiscourseBabbleHandle_formatRichText (a @ [(ts, [])] @ b) = Inr (ra @ rb)"
proof -
  have "DiscourseBabbleHandle_formatRichText [(ts, [])] = Inr []"
    by (simp add: bb_format_single bb_step_def)
  from bb_format_append [OF this assms(2)] bb_format_append [OF assms(1)]
  show ?thesis by simp
qed

text \<open>
  C8, as it holds of the code. The Telegram renderer escapes the text of a run when its
  argument \<^verbatim>\<open>escape\<close> is true, the default: then every one of the five HTML
  metacharacters in the text is replaced by its entity, and none of \<open><\<close>, \<open>>\<close> and the
  two quotes is left in it. When \<^verbatim>\<open>escape\<close> is false the text is emitted as it is. In both
  cases the wrapper of the run is put around the text afterwards and is itself not escaped.
\<close>

theorem C8_escape_before_wrap:
  "Telegram_formatRichText (a @ [(ts, text)] @ b) e =
     Telegram_formatRichText a e @
     (if bold ts then ''<b>'' @ (if e then concat (map html_escape_char text) else text) @ ''</b>''
      else if italic ts then ''<i>'' @ (if e then concat (map html_escape_char text) else text) @ ''</i>''
      else (if e then concat (map html_escape_char text) else text)) @
     Telegram_formatRichText b e
   \<and> CHR ''<'' \<notin> set (concat (map html_escape_char text))
   \<and> CHR ''>'' \<notin> set (concat (map html_escape_char text))
   \<and> CHR 0x22 \<notin> set (concat (map html_escape_char text))
   \<and> CHR 0x27 \<notin> set (concat (map html_escape_char text))"
  using html_escape_no_meta [of "text"]
  by (simp add: tg_format_append tg_format_Cons tg_step_def Let_def is_bold_def is_italic_def
      html_escape_chars)

theorem C8_witness:
  "Telegram_formatRichText
     ([] @ [(\<lparr>bold = True, italic = False, underline = False, color = None\<rparr>, ''<b>&'')] @ []) True
     = ''<b>&lt;b&gt;&amp;</b>''"
  using C8_escape_before_wrap [of "[]"
      "\<lparr>bold = True, italic = False, underline = False, color = None\<rparr>" "''<b>&''" "[]" True]
  by (simp add: Telegram_formatRichText_def html_escape_char_def)

text \<open>
  C8 as the specification states it, without a condition on \<^verbatim>\<open>escape\<close>, fails: with
  \<^verbatim>\<open>escape=False\<close> the metacharacters of a bold run are emitted unescaped.
\<close>

theorem C8_counterexample:
  "Telegram_formatRichText
     [(\<lparr>bold = True, italic = False, underline = False, color = None\<rparr>, ''<i>&'')] False
     = ''<b><i>&</b>''"
  by (simp add: Telegram_formatRichText_def tg_step_def is_bold_def)

text \<open>
  C9. The palette has 17 entries. For every RichText whose styles have their colour indices
  in \<open>[0,16]\<close> the BBCode renderer, the one renderer that reads the palette, returns
  without an error. Construction of a TextStyle fails with InvalidColor exactly when an
  index is out of range, so every constructed style has its indices in range.
\<close>

theorem C9_palette_bounds:
  "length IRC_COLOR_RGB = 17 \<and>
   ((\<forall>run \<in> set rt. valid_color (color (fst run)))
      \<longrightarrow> (\<exists>out. DiscourseBabbleHandle_formatRichText rt = Inr out)) \<and>
   (TextStyle c b i u = Inl InvalidColor \<longleftrightarrow> \<not> valid_color c) \<and>
   (TextStyle c b i u = Inr ts \<longrightarrow> valid_color (color ts))"
  using bb_format_valid [of rt]
  by (auto simp: palette_length TextStyle_def)

theorem C9_witness:
  "length IRC_COLOR_RGB = 17 \<and>
   valid_color (color \<lparr>bold = False, italic = False, underline = False, color = Some (Color 16 (Some 0))\<rparr>) \<and>
   DiscourseBabbleHandle_formatRichText
     [(\<lparr>bold = False, italic = False, underline = False, color = Some (Color 16 (Some 0))\<rparr>, ''x'')]
     = Inr ''[color=#888]x[/color]'' \<and>
   TextStyle (Some (Color 17 None)) False False False = Inl InvalidColor \<and>
   \<not> valid_color (Some (Color 17 None)) \<and>
   TextStyle (Some (Color 16 (Some 0))) False False False
     = Inr \<lparr>bold = False, italic = False, underline = False, color = Some (Color 16 (Some 0))\<rparr>"
  using C9_palette_bounds [of "[(\<lparr>bold = False, italic = False, underline = False, color = Some (Color 16 (Some 0))\<rparr>, ''x'')]"
      "Some (Color 17 None)" False False False]
  by (simp add: valid_color_def Color_def valid_index_def TextStyle_def
      DiscourseBabbleHandle_formatRichText_def bb_step_def is_normal_def bind_err_def
      bb_color_def has_color_def bg_truthy_def fgcolor_def py_index_def IRC_COLOR_RGB_def
      bb_bold_def bb_italic_def bb_underline_def is_bold_def is_italic_def is_underline_def)

section \<open>Properties of the escaping functions\<close>

subsection \<open>Markdown escaping\<close>

lemma replace_append:
  "replace (xs @ ys) rs = replace xs rs @ replace ys rs"
  by (induction rs arbitrary: xs ys) (simp_all add: replace_char_append)

lemma md_escape_Nil: "md_escape [] = []"
  by (simp add: md_escape_def replace_char_Nil)

lemma md_escape_single: "md_escape [x] = md_escape_char x"
  by (simp add: md_escape_def md_escape_char_def replace_char_Cons replace_char_Nil)

lemma md_escape_Cons: "md_escape (x # xs) = md_escape_char x @ md_escape xs"
proof -
  have "md_escape ([x] @ xs) = md_escape [x] @ md_escape xs"
    unfolding md_escape_def by (rule replace_append)
  then show ?thesis by (simp add: md_escape_single)
qed


subsection \<open>Tag stripping\<close>

lemma set_tl_subset: "set (tl xs) \<subseteq> set xs"
  by (cases xs) auto

lemma match_tag_Some:
  "match_tag cs = Some rest \<Longrightarrow> rest = tl (dropWhile (\<lambda>x. x \<noteq> CHR ''>'') cs)"
  by (simp add: match_tag_def Let_def split: if_splits)

lemma match_tag_None_iff:
  "match_tag cs = None \<longleftrightarrow> (cs = [] \<or> hd cs = CHR ''>'' \<or> CHR ''>'' \<notin> set cs)"
  by (cases cs) (auto simp: match_tag_def Let_def dropWhile_eq_Nil_conv takeWhile_eq_Nil_iff)

lemma set_re_sub_tags: "set (re_sub_tags s) \<subseteq> set s"
proof (induction s rule: re_sub_tags.induct)
  case 1
  show ?case by simp
next
  case (2 c cs)
  show ?case
  proof (cases "c = CHR ''<''")
    case False
    from 2(3) [OF False] have "set (re_sub_tags cs) \<subseteq> set cs" .
    with False show ?thesis by (simp add: subset_insertI2)
  next
    case True
    show ?thesis
    proof (cases "match_tag cs")
      case None
      from 2(1) [OF True None] have "set (re_sub_tags cs) \<subseteq> set cs" .
      with True None show ?thesis by (simp add: subset_insertI2)
    next
      case (Some rest)
      have "set (tl (dropWhile (\<lambda>x. x \<noteq> CHR ''>'') cs)) \<subseteq> set (dropWhile (\<lambda>x. x \<noteq> CHR ''>'') cs)"
        by (rule set_tl_subset)
      moreover have "set (dropWhile (\<lambda>x. x \<noteq> CHR ''>'') cs) \<subseteq> set cs"
        by (auto dest: set_dropWhileD)
      ultimately have "set rest \<subseteq> set cs"
        using match_tag_Some [OF Some] by simp
      moreover from 2(2) [OF True Some] have "set (re_sub_tags rest) \<subseteq> set rest" .
      ultimately have "set (re_sub_tags rest) \<subseteq> set cs" by (rule subset_trans [rotated])
      with True Some show ?thesis by (simp add: subset_insertI2)
    qed
  qed
qed

lemma re_sub_tags_hd:
  "cs \<noteq> [] \<Longrightarrow> hd cs = CHR ''>'' \<Longrightarrow> re_sub_tags cs \<noteq> [] \<and> hd (re_sub_tags cs) = CHR ''>''"
  by (cases cs) auto

lemma match_tag_re_sub_tags:
  assumes "match_tag cs = None"
  shows "match_tag (re_sub_tags cs) = None"
proof -
  show ?thesis
  proof (cases "cs = []")
    case True
    then show ?thesis by (simp add: match_tag_None_iff)
  next
    case False
    show ?thesis
    proof (cases "hd cs = CHR ''>''")
      case True
      with False show ?thesis using re_sub_tags_hd [of cs] by (simp add: match_tag_None_iff)
    next
      case hd: False
      with False assms have "CHR ''>'' \<notin> set cs"
        by (simp add: match_tag_None_iff)
      then have "CHR ''>'' \<notin> set (re_sub_tags cs)"
        using set_re_sub_tags [of cs] by auto
      then show ?thesis by (simp add: match_tag_None_iff)
    qed
  qed
qed

lemma no_tag_left: "\<not> has_tag (re_sub_tags s)"
proof (induction s rule: re_sub_tags.induct)
  case 1
  show ?case by simp
next
  case (2 c cs)
  show ?case
  proof (cases "c = CHR ''<''")
    case False
    with 2 show ?thesis by simp
  next
    case True
    show ?thesis
    proof (cases "match_tag cs")
      case None
      with True 2 match_tag_re_sub_tags [OF None] show ?thesis by simp
    next
      case (Some rest)
      with True 2 show ?thesis by simp
    qed
  qed
qed

lemma no_tag_unchanged: "\<not> has_tag s \<Longrightarrow> re_sub_tags s = s"
proof (induction s)
  case Nil
  show ?case by simp
next
  case (Cons c cs)
  from Cons.prems have a: "\<not> (c = CHR ''<'' \<and> match_tag cs \<noteq> None)" and b: "\<not> has_tag cs"
    by (simp_all split: if_splits)
  from b Cons.IH have "re_sub_tags cs = cs" by simp
  with a show ?case by (cases "match_tag cs") auto
qed

lemma takeWhile_neq_app:
  "c \<notin> set xs \<Longrightarrow> takeWhile (\<lambda>x. x \<noteq> c) (xs @ ys) = xs @ takeWhile (\<lambda>x. x \<noteq> c) ys"
  by (induction xs) auto

lemma dropWhile_neq_app:
  "c \<notin> set xs \<Longrightarrow> dropWhile (\<lambda>x. x \<noteq> c) (xs @ ys) = dropWhile (\<lambda>x. x \<noteq> c) ys"
  by (induction xs) auto

lemma takeWhile_neq_in:
  "c \<in> set xs \<Longrightarrow> takeWhile (\<lambda>x. x \<noteq> c) (xs @ ys) = takeWhile (\<lambda>x. x \<noteq> c) xs"
  by (induction xs) auto

lemma dropWhile_neq_in:
  "c \<in> set xs \<Longrightarrow> dropWhile (\<lambda>x. x \<noteq> c) (xs @ ys) = dropWhile (\<lambda>x. x \<noteq> c) xs @ ys"
  by (induction xs) auto

lemma dropWhile_neq_nonempty:
  "c \<in> set xs \<Longrightarrow> dropWhile (\<lambda>x. x \<noteq> c) xs \<noteq> []"
  by (induction xs) auto

lemma match_tag_body:
  assumes "body \<noteq> []" and "CHR ''>'' \<notin> set body"
  shows "match_tag (body @ CHR ''>'' # rest) = Some rest"
proof -
  from assms(2) have "takeWhile (\<lambda>x. x \<noteq> CHR ''>'') (body @ CHR ''>'' # rest) = body"
    by (simp add: takeWhile_neq_app)
  moreover from assms(2) have "dropWhile (\<lambda>x. x \<noteq> CHR ''>'') (body @ CHR ''>'' # rest) = CHR ''>'' # rest"
    by (simp add: dropWhile_neq_app)
  ultimately show ?thesis using assms(1) by (simp add: match_tag_def)
qed

lemma strip_other: "c \<noteq> CHR ''<'' \<Longrightarrow> re_sub_tags (c # s) = c # re_sub_tags s"
  by simp

lemma strip_tag:
  "body \<noteq> [] \<Longrightarrow> CHR ''>'' \<notin> set body
     \<Longrightarrow> re_sub_tags (CHR ''<'' # body @ CHR ''>'' # rest) = re_sub_tags rest"
  by (simp add: match_tag_body)

lemma strip_lone:
  "s = [] \<or> hd s = CHR ''>'' \<or> CHR ''>'' \<notin> set s
     \<Longrightarrow> re_sub_tags (CHR ''<'' # s) = CHR ''<'' # re_sub_tags s"
  using match_tag_None_iff [of s] by simp

lemma has_tag_append: "has_tag s \<Longrightarrow> has_tag (pre @ s)"
  by (induction pre) simp_all

lemma has_tag_shape:
  assumes "body \<noteq> []" and "CHR ''>'' \<notin> set body"
  shows "has_tag (pre @ CHR ''<'' # body @ CHR ''>'' # post)"
proof -
  have "has_tag (CHR ''<'' # body @ CHR ''>'' # post)"
    by (simp add: match_tag_body [OF assms])
  then show ?thesis by (rule has_tag_append)
qed

lemma no_match_left:
  assumes "body \<noteq> []" and "CHR ''>'' \<notin> set body"
  shows "re_sub_tags s \<noteq> pre @ CHR ''<'' # body @ CHR ''>'' # post"
  using no_tag_left [of s] has_tag_shape [OF assms, of pre post] by auto

lemma takeWhile_neq_snoc:
  "takeWhile (\<lambda>x. x \<noteq> g) (xs @ [c]) =
     (if g \<in> set xs then takeWhile (\<lambda>x. x \<noteq> g) xs else xs @ (if c \<noteq> g then [c] else []))"
  by (induction xs) auto

lemma takeWhile_neq_all: "g \<notin> set xs \<Longrightarrow> takeWhile (\<lambda>x. x \<noteq> g) xs = xs"
  by (induction xs) auto

lemma open_tag_Cons:
  "open_tag (c # cs) \<longleftrightarrow> (c = CHR ''<'' \<and> CHR ''>'' \<notin> set cs) \<or> open_tag cs"
proof (cases "CHR ''>'' \<in> set cs")
  case True
  then show ?thesis by (simp add: open_tag_def takeWhile_neq_snoc)
next
  case False
  then have "open_tag cs \<longleftrightarrow> CHR ''<'' \<in> set cs"
    by (simp add: open_tag_def takeWhile_neq_all)
  moreover from False have "open_tag (c # cs) \<longleftrightarrow> CHR ''<'' \<in> set (rev cs @ (if c \<noteq> CHR ''>'' then [c] else []))"
    by (simp add: open_tag_def takeWhile_neq_snoc)
  ultimately show ?thesis using False by auto
qed

lemma open_tag_Nil: "\<not> open_tag []"
  by (simp add: open_tag_def)

lemma open_tag_suffix: "open_tag b \<Longrightarrow> open_tag (a @ b)"
  by (induction a) (simp_all add: open_tag_Cons)

lemma match_tag_app_gt:
  assumes "CHR ''>'' \<in> set cs"
  shows "match_tag (cs @ r) = map_option (\<lambda>x. x @ r) (match_tag cs)"
proof -
  from assms have t: "takeWhile (\<lambda>x. x \<noteq> CHR ''>'') (cs @ r) = takeWhile (\<lambda>x. x \<noteq> CHR ''>'') cs"
    by (rule takeWhile_neq_in)
  from assms have d: "dropWhile (\<lambda>x. x \<noteq> CHR ''>'') (cs @ r) = dropWhile (\<lambda>x. x \<noteq> CHR ''>'') cs @ r"
    by (rule dropWhile_neq_in)
  from assms have n: "dropWhile (\<lambda>x. x \<noteq> CHR ''>'') cs \<noteq> []"
    by (rule dropWhile_neq_nonempty)
  show ?thesis using n by (simp add: match_tag_def t d)
qed

lemma match_tag_suffix:
  assumes "match_tag cs = Some rest"
  shows "\<exists>a. cs = a @ rest"
proof -
  from assms have r: "rest = tl (dropWhile (\<lambda>x. x \<noteq> CHR ''>'') cs)"
    and n: "dropWhile (\<lambda>x. x \<noteq> CHR ''>'') cs \<noteq> []"
    by (simp_all add: match_tag_def Let_def split: if_splits)
  from n obtain x ys where d: "dropWhile (\<lambda>x. x \<noteq> CHR ''>'') cs = x # ys"
    by (auto simp only: neq_Nil_conv)
  with r have "ys = rest" by (simp only: list.sel)
  with d have x: "dropWhile (\<lambda>x. x \<noteq> CHR ''>'') cs = x # rest" by (simp only:)
  have "(takeWhile (\<lambda>x. x \<noteq> CHR ''>'') cs @ [x]) @ rest
          = takeWhile (\<lambda>x. x \<noteq> CHR ''>'') cs @ dropWhile (\<lambda>x. x \<noteq> CHR ''>'') cs"
    by (simp only: x append_assoc append_Cons append_Nil)
  also have "\<dots> = cs" by (rule takeWhile_dropWhile_id)
  finally have "cs = (takeWhile (\<lambda>x. x \<noteq> CHR ''>'') cs @ [x]) @ rest" by (rule sym)
  then show ?thesis ..
qed

lemma strip_append:
  assumes "\<not> open_tag pre \<or> CHR ''>'' \<notin> set r"
  shows "re_sub_tags (pre @ r) = re_sub_tags pre @ re_sub_tags r"
  using assms
proof (induction pre rule: re_sub_tags.induct)
  case 1
  show ?case by simp
next
  case (2 c cs)
  from "2.prems" have tail: "\<not> open_tag cs \<or> CHR ''>'' \<notin> set r"
    by (auto simp: open_tag_Cons)
  show ?case
  proof (cases "c = CHR ''<''")
    case False
    from 2(3) [OF False tail] False show ?thesis by simp
  next
    case True
    show ?thesis
    proof (cases "CHR ''>'' \<in> set cs")
      case gt: True
      show ?thesis
      proof (cases "match_tag cs")
        case None
        from 2(1) [OF True None tail] True None gt show ?thesis
          by (simp add: match_tag_app_gt)
      next
        case (Some rest)
        from match_tag_suffix [OF Some] obtain a where "cs = a @ rest" ..
        with tail have "\<not> open_tag rest \<or> CHR ''>'' \<notin> set r"
          using open_tag_suffix [of rest a] by auto
        from 2(2) [OF True Some this] True Some gt show ?thesis
          by (simp add: match_tag_app_gt)
      qed
    next
      case False
      with "2.prems" True have nr: "CHR ''>'' \<notin> set r"
        by (auto simp: open_tag_Cons)
      with False have "match_tag (cs @ r) = None" and n: "match_tag cs = None"
        by (simp_all add: match_tag_None_iff)
      with 2(1) [OF True n tail] True show ?thesis by simp
    qed
  qed
qed

lemma strip_no_lt: "CHR ''<'' \<notin> set s \<Longrightarrow> re_sub_tags s = s"
  by (induction s) auto

subsection \<open>Character references\<close>

lemma bind_err_Inr: "bind_err (Inr v) f = f v"
  by (simp add: bind_err_def)

lemma bind_err_Inl: "bind_err (Inl e) f = Inl e"
  by (simp add: bind_err_def)

lemma no_lt_no_tag: "CHR ''<'' \<notin> set s \<Longrightarrow> \<not> has_tag s"
  by (induction s) auto

lemma charref_sub_plain: "CHR ''&'' \<notin> set s \<Longrightarrow> charref_sub h s = Inr s"
  by (induction s) (auto simp: bind_err_Inr)

lemma html_unescape_sub: "html_unescape h s = charref_sub h s"
  by (simp add: html_unescape_def charref_sub_plain)

lemma charref_sub_other:
  "c \<noteq> CHR ''&'' \<Longrightarrow> charref_sub h (c # s) = bind_err (charref_sub h s) (\<lambda>t. Inr (c # t))"
  by simp

lemma match_amp:
  "match_charref (CHR ''a'' # CHR ''m'' # CHR ''p'' # CHR '';'' # rest) = Some (Named ''amp;'', 4)"
  by (simp add: match_charref_def opt_semicolon_def name_char_def is_cont_def eval_nat_numeral)

lemma match_lt:
  "match_charref (CHR ''l'' # CHR ''t'' # CHR '';'' # rest) = Some (Named ''lt;'', 3)"
  by (simp add: match_charref_def opt_semicolon_def name_char_def is_cont_def eval_nat_numeral)

lemma match_gt:
  "match_charref (CHR ''g'' # CHR ''t'' # CHR '';'' # rest) = Some (Named ''gt;'', 3)"
  by (simp add: match_charref_def opt_semicolon_def name_char_def is_cont_def eval_nat_numeral)

lemma match_quot:
  "match_charref (CHR ''q'' # CHR ''u'' # CHR ''o'' # CHR ''t'' # CHR '';'' # rest) = Some (Named ''quot;'', 5)"
  by (simp add: match_charref_def opt_semicolon_def name_char_def is_cont_def eval_nat_numeral)

lemma match_x27:
  "match_charref (CHR ''#'' # CHR ''x'' # CHR ''2'' # CHR ''7'' # CHR '';'' # rest) = Some (Hex ''27'', 5)"
  by (simp add: match_charref_def opt_semicolon_def is_digit_def is_hexdigit_def)

lemma numeric_39: "numeric_charref (int_of_digits 16 ''27'') = [CHR 0x27]"
proof -
  have "int_of_digits 16 ''27'' = 39"
    by (simp add: int_of_digits_def hex_value_def)
  moreover have "map_of invalid_charrefs (39::nat) = None"
    by (simp add: invalid_charrefs_def)
  moreover have "(39::nat) \<notin> set invalid_codepoints"
    by (simp add: invalid_codepoints_def)
  moreover have "py_chr 39 = [CHR 0x27]"
    by code_simp
  ultimately show ?thesis by (simp add: numeric_charref_def)
qed

lemma charref_amp:
  assumes "h ''amp;'' = Some ''&''"
  shows "charref_sub h (CHR ''&'' # CHR ''a'' # CHR ''m'' # CHR ''p'' # CHR '';'' # rest)
           = bind_err (charref_sub h rest) (\<lambda>t. Inr (CHR ''&'' # t))"
  using assms by (simp add: match_amp replace_charref_def bind_err_Inr)

lemma charref_escape_char:
  assumes "h ''amp;'' = Some ''&''" and "h ''lt;'' = Some ''<''" and "h ''gt;'' = Some ''>''"
    and "h ''quot;'' = Some [CHR 0x22]"
  shows "charref_sub h (html_escape_char c @ rest) = bind_err (charref_sub h rest) (\<lambda>t. Inr (c # t))"
proof -
  consider "c = CHR ''&''" | "c = CHR ''<''" | "c = CHR ''>''" | "c = CHR 0x22" | "c = CHR 0x27"
    | "c \<noteq> CHR ''&''" "c \<noteq> CHR ''<''" "c \<noteq> CHR ''>''" "c \<noteq> CHR 0x22" "c \<noteq> CHR 0x27"
    by blast
  then show ?thesis
  proof cases
    case 1
    then show ?thesis using assms(1)
      by (simp add: html_escape_char_def match_amp replace_charref_def bind_err_Inr)
  next
    case 2
    then show ?thesis using assms(2)
      by (simp add: html_escape_char_def match_lt replace_charref_def bind_err_Inr)
  next
    case 3
    then show ?thesis using assms(3)
      by (simp add: html_escape_char_def match_gt replace_charref_def bind_err_Inr)
  next
    case 4
    then show ?thesis using assms(4)
      by (simp add: html_escape_char_def match_quot replace_charref_def bind_err_Inr)
  next
    case 5
    then show ?thesis
      by (simp add: html_escape_char_def match_x27 replace_charref_def numeric_39 bind_err_Inr)
  next
    case 6
    then show ?thesis by (simp add: html_escape_char_def)
  qed
qed

lemma charref_escaped_app:
  assumes "h ''amp;'' = Some ''&''" and "h ''lt;'' = Some ''<''" and "h ''gt;'' = Some ''>''"
    and "h ''quot;'' = Some [CHR 0x22]"
  shows "charref_sub h (html_escape m @ rest) = bind_err (charref_sub h rest) (\<lambda>t. Inr (m @ t))"
proof -
  have "charref_sub h (concat (map html_escape_char m) @ rest)
          = bind_err (charref_sub h rest) (\<lambda>t. Inr (m @ t))"
  proof (induction m)
    case Nil
    show ?case by (cases "charref_sub h rest") (simp_all add: bind_err_def)
  next
    case (Cons c m)
    have "charref_sub h (concat (map html_escape_char (c # m)) @ rest)
            = charref_sub h (html_escape_char c @ (concat (map html_escape_char m) @ rest))"
      by simp
    also have "\<dots> = bind_err (charref_sub h (concat (map html_escape_char m) @ rest)) (\<lambda>t. Inr (c # t))"
      by (rule charref_escape_char [OF assms])
    also have "\<dots> = bind_err (charref_sub h rest) (\<lambda>t. Inr ((c # m) @ t))"
      by (cases "charref_sub h rest") (simp_all add: Cons.IH bind_err_def)
    finally show ?case .
  qed
  then show ?thesis by (simp add: html_escape_chars)
qed

lemma unescape_escape:
  assumes "h ''amp;'' = Some ''&''" and "h ''lt;'' = Some ''<''" and "h ''gt;'' = Some ''>''"
    and "h ''quot;'' = Some [CHR 0x22]"
  shows "html_unescape h (html_escape m) = Inr m"
  using charref_escaped_app [OF assms, of m "[]"] by (simp add: html_unescape_sub bind_err_Inr)

lemma not_name_amp: "\<not> name_char CHR ''&''"
  by (simp add: name_char_def)

lemma take_name_app: "take_name k (cs @ CHR ''&'' # Y) = take_name k cs"
  by (induction cs arbitrary: k) (auto simp: not_name_amp split: nat.splits)

lemma take_name_prefix: "take (length (take_name k cs)) cs = take_name k cs"
  by (induction cs arbitrary: k) (auto split: nat.splits)

lemma take_name_length: "length (take_name k cs) \<le> length cs"
  by (induction cs arbitrary: k) (auto split: nat.splits)

lemma take_name_no_amp: "CHR ''&'' \<notin> set (take_name k cs)"
  by (induction cs arbitrary: k) (auto simp: not_name_amp split: nat.splits)

lemma takeWhile_app_stop:
  "\<not> P c \<Longrightarrow> takeWhile P (xs @ c # ys) = takeWhile P xs"
  by (induction xs) auto

lemma takeWhile_prefix: "take (length (takeWhile P xs)) xs = takeWhile P xs"
  by (induction xs) auto

lemma opt_semicolon_app:
  "k \<le> length cs \<Longrightarrow> opt_semicolon (drop k (cs @ CHR ''&'' # Y)) = opt_semicolon (drop k cs)"
  by (cases "drop k cs") (auto simp: opt_semicolon_def)

lemma opt_semicolon_app2: "opt_semicolon (xs @ CHR ''&'' # Y) = opt_semicolon xs"
  by (cases xs) (auto simp: opt_semicolon_def)

lemma opt_semicolon_prefix: "take (length (opt_semicolon xs)) xs = opt_semicolon xs"
  by (cases xs) (auto simp: opt_semicolon_def)

lemma opt_semicolon_length: "length (opt_semicolon xs) \<le> length xs"
  by (cases xs) (auto simp: opt_semicolon_def)

lemma opt_semicolon_no_amp: "CHR ''&'' \<notin> set (opt_semicolon xs)"
  by (cases xs) (auto simp: opt_semicolon_def)

lemma not_digit_amp: "\<not> is_digit CHR ''&''" "\<not> is_hexdigit CHR ''&''"
  by (simp_all add: is_digit_def is_hexdigit_def)

lemma match_charref_app: "match_charref (cs @ CHR ''&'' # Y) = match_charref cs"
proof (cases cs)
  case Nil
  then show ?thesis by (simp add: match_charref_def not_name_amp)
next
  case (Cons c ds)
  show ?thesis
  proof (cases "c = CHR ''#''")
    case True
    have d: "takeWhile is_digit (ds @ CHR ''&'' # Y) = takeWhile is_digit ds"
      by (rule takeWhile_app_stop) (rule not_digit_amp)
    show ?thesis
    proof (cases "takeWhile is_digit ds = []")
      case False
      with True Cons d show ?thesis
        by (simp add: match_charref_def Let_def opt_semicolon_app2 length_takeWhile_le)
    next
      case dec: True
      show ?thesis
      proof (cases ds)
        case Nil
        with True Cons show ?thesis by (simp add: match_charref_def not_digit_amp)
      next
        case (Cons x hs)
        have h: "takeWhile is_hexdigit (hs @ CHR ''&'' # Y) = takeWhile is_hexdigit hs"
          by (rule takeWhile_app_stop) (rule not_digit_amp)
        from True \<open>cs = c # ds\<close> Cons dec d show ?thesis
          by (simp add: match_charref_def Let_def h opt_semicolon_app2 length_takeWhile_le
              del: takeWhile.simps)
      qed
    qed
  next
    case False
    have "take_name 32 ((c # ds) @ CHR ''&'' # Y) = take_name 32 (c # ds)"
      by (rule take_name_app)
    with False Cons show ?thesis
      using opt_semicolon_app [OF take_name_length, of 32 "c # ds" Y]
      by (simp add: match_charref_def Let_def del: take_name.simps)
  qed
qed

lemma prefix_parts:
  assumes "take (length p) xs = p"
  shows "take (length p + length (opt_semicolon (drop (length p) xs))) xs
           = p @ opt_semicolon (drop (length p) xs)"
    and "length p + length (opt_semicolon (drop (length p) xs)) \<le> length xs"
proof -
  show "take (length p + length (opt_semicolon (drop (length p) xs))) xs
           = p @ opt_semicolon (drop (length p) xs)"
    by (simp add: take_add assms opt_semicolon_prefix)
  have "length p \<le> length xs"
    using arg_cong [OF assms, of length] by simp
  moreover have "length (opt_semicolon (drop (length p) xs)) \<le> length xs - length p"
    using opt_semicolon_length [of "drop (length p) xs"] by simp
  ultimately show "length p + length (opt_semicolon (drop (length p) xs)) \<le> length xs"
    by simp
qed

lemma digits_no_amp: "CHR ''&'' \<notin> set (takeWhile is_digit xs)"
  using not_digit_amp(1) by (auto dest: set_takeWhileD)

lemma hexdigits_no_amp: "CHR ''&'' \<notin> set (takeWhile is_hexdigit xs)"
  using not_digit_amp(2) by (auto dest: set_takeWhileD)

lemma match_charref_consumed:
  assumes "match_charref cs = Some (r, n)"
  shows "n \<le> length cs \<and> CHR ''&'' \<notin> set (take n cs)"
proof (cases cs)
  case Nil
  with assms show ?thesis by (simp add: match_charref_def)
next
  case (Cons c ds)
  show ?thesis
  proof (cases "c = CHR ''#''")
    case True
    show ?thesis
    proof (cases "takeWhile is_digit ds = []")
      case False
      let ?p = "takeWhile is_digit ds"
      from assms True Cons False
      have n: "n = Suc (length ?p + length (opt_semicolon (drop (length ?p) ds)))"
        by (simp add: match_charref_def Let_def)
      from prefix_parts [OF takeWhile_prefix [of is_digit ds]] True Cons n show ?thesis
        by (simp add: digits_no_amp opt_semicolon_no_amp)
    next
      case dec: True
      show ?thesis
      proof (cases ds)
        case Nil
        with assms True \<open>cs = c # ds\<close> show ?thesis by (simp add: match_charref_def)
      next
        case (Cons x hs)
        let ?p = "takeWhile is_hexdigit hs"
        from assms True \<open>cs = c # ds\<close> Cons dec
        have x: "x \<in> set ''xX''"
          and n: "n = Suc (Suc (length ?p + length (opt_semicolon (drop (length ?p) hs))))"
          by (auto simp: match_charref_def Let_def split: if_splits)
        from prefix_parts [OF takeWhile_prefix [of is_hexdigit hs]] True \<open>cs = c # ds\<close> Cons n x
        show ?thesis
          by (auto simp: hexdigits_no_amp opt_semicolon_no_amp)
      qed
    qed
  next
    case False
    let ?p = "take_name 32 cs"
    from assms False Cons
    have n: "n = length ?p + length (opt_semicolon (drop (length ?p) cs))"
      by (auto simp: match_charref_def Let_def split: if_splits simp del: take_name.simps)
    from prefix_parts [OF take_name_prefix [of 32 cs]] n show ?thesis
      by (simp add: take_name_no_amp opt_semicolon_no_amp del: take_name.simps)
  qed
qed

lemma charref_sub_app_gen:
  assumes app: "\<And>cs. match_charref (cs @ X) = match_charref cs"
  shows "charref_sub h (A @ X) =
     bind_err (charref_sub h A) (\<lambda>a. bind_err (charref_sub h X) (\<lambda>y. Inr (a @ y)))"
proof (induction h A rule: charref_sub.induct)
  case (1 h)
  show ?case
    by (cases "charref_sub h X") (simp_all add: bind_err_def)
next
  case (2 h c cs)
  show ?case
  proof (cases "c = CHR ''&''")
    case False
    from 2(3) [OF False] False show ?thesis
      by (cases "charref_sub h cs"; cases "charref_sub h X") (simp_all add: bind_err_def)
  next
    case True
    show ?thesis
    proof (cases "match_charref cs")
      case None
      from 2(1) [OF True None] True None show ?thesis
        by (cases "charref_sub h cs"; cases "charref_sub h X") (simp_all add: bind_err_def app)
    next
      case (Some rn)
      obtain r n where rn: "rn = (r, n)" by (cases rn)
      from match_charref_consumed [of cs r n] Some rn have n: "n \<le> length cs" by simp
      have ih: "charref_sub h (drop n cs @ X) =
         bind_err (charref_sub h (drop n cs)) (\<lambda>a. bind_err (charref_sub h X) (\<lambda>y. Inr (a @ y)))"
        using 2(2) [OF True Some rn [symmetric]] rn by simp
      show ?thesis
        using True Some rn n
        by (cases "replace_charref h r"; cases "charref_sub h (drop n cs)"; cases "charref_sub h X")
           (simp_all add: ih bind_err_def app)
    qed
  qed
qed

lemma charref_sub_app:
  "charref_sub h (A @ CHR ''&'' # Y) =
     bind_err (charref_sub h A) (\<lambda>a. bind_err (charref_sub h (CHR ''&'' # Y)) (\<lambda>y. Inr (a @ y)))"
  by (rule charref_sub_app_gen) (rule match_charref_app)

subsection \<open>When \<^verbatim>\<open>html.unescape\<close> raises\<close>

lemma has_long_ref_drop:
  "CHR ''&'' \<notin> set (take n cs) \<Longrightarrow> has_long_ref (drop n cs) = has_long_ref cs"
proof (induction n arbitrary: cs)
  case 0
  show ?case by simp
next
  case (Suc n)
  then show ?case by (cases cs) auto
qed

lemma replace_charref_named: "\<exists>v. replace_charref h (Named s) = Inr v"
  by (simp add: replace_charref_def split: option.splits)

lemma replace_result:
  assumes "match_charref cs = Some (r, n)"
  shows "(long_decimal cs \<longrightarrow> replace_charref h r = Inl ValueError) \<and>
         (\<not> long_decimal cs \<longrightarrow> (\<exists>v. replace_charref h r = Inr v))"
proof (cases cs)
  case Nil
  with assms show ?thesis by (simp add: match_charref_def)
next
  case (Cons c ds)
  show ?thesis
  proof (cases "c = CHR ''#''")
    case False
    with assms Cons obtain s where "r = Named s"
      by (auto simp: match_charref_def Let_def split: if_splits simp del: take_name.simps)
    with False Cons show ?thesis
      using replace_charref_named [of h s] by (simp add: long_decimal_def)
  next
    case True
    show ?thesis
    proof (cases "takeWhile is_digit ds = []")
      case False
      with assms True Cons have "r = Dec (takeWhile is_digit ds)"
        by (simp add: match_charref_def Let_def)
      with True Cons show ?thesis
        by (simp add: long_decimal_def replace_charref_def)
    next
      case dec: True
      with assms True Cons obtain hs where "r = Hex hs"
        by (cases ds) (auto simp: match_charref_def Let_def split: if_splits)
      with True Cons dec show ?thesis
        by (simp add: long_decimal_def replace_charref_def int_max_str_digits_def)
    qed
  qed
qed

lemma no_match_not_long: "match_charref cs = None \<Longrightarrow> \<not> long_decimal cs"
proof (cases cs)
  case Nil
  then show ?thesis by (simp add: long_decimal_def)
next
  case (Cons c ds)
  assume n: "match_charref cs = None"
  show ?thesis
  proof (cases "c = CHR ''#'' \<and> takeWhile is_digit ds \<noteq> []")
    case True
    with n Cons show ?thesis by (simp add: match_charref_def Let_def)
  next
    case False
    with Cons show ?thesis
      by (auto simp: long_decimal_def int_max_str_digits_def)
  qed
qed

lemma charref_sub_result:
  "(has_long_ref s \<longrightarrow> charref_sub h s = Inl ValueError) \<and>
   (\<not> has_long_ref s \<longrightarrow> (\<exists>out. charref_sub h s = Inr out))"
proof (induction h s rule: charref_sub.induct)
  case (1 h)
  show ?case by simp
next
  case (2 h c cs)
  show ?case
  proof (cases "c = CHR ''&''")
    case False
    from 2(3) [OF False] False show ?thesis
      by (auto simp: bind_err_def)
  next
    case True
    show ?thesis
    proof (cases "match_charref cs")
      case None
      from 2(1) [OF True None] True None no_match_not_long [OF None] show ?thesis
        by (auto simp: bind_err_def)
    next
      case (Some rn)
      obtain r n where rn: "rn = (r, n)" by (cases rn)
      with Some have m: "match_charref cs = Some (r, n)" by simp
      note R = replace_result [OF m, of h]
      show ?thesis
      proof (cases "long_decimal cs")
        case long: True
        with R True m show ?thesis by (simp add: bind_err_def)
      next
        case short: False
        with R obtain v where v: "replace_charref h r = Inr v" by auto
        from match_charref_consumed [OF m] have "has_long_ref (drop n cs) = has_long_ref cs"
          by (intro has_long_ref_drop) simp
        with 2(2) [OF True Some rn [symmetric]] True m v short show ?thesis
          by (auto simp: bind_err_def)
      qed
    qed
  qed
qed

lemma html_unescape_result:
  "(has_long_ref s \<longrightarrow> html_unescape h s = Inl ValueError) \<and>
   (\<not> has_long_ref s \<longrightarrow> (\<exists>out. html_unescape h s = Inr out))"
  using charref_sub_result [of s h] by (simp add: html_unescape_sub)

lemma long_ref_example_match:
  "long_decimal (CHR ''#'' # replicate 4301 CHR ''1'')"
proof -
  have "takeWhile is_digit (replicate 4301 CHR ''1'') = replicate 4301 CHR ''1''"
    by (simp add: takeWhile_eq_all_conv is_digit_def)
  then show ?thesis by (simp add: long_decimal_def int_max_str_digits_def)
qed

subsection \<open>Escaped text between other text\<close>

lemma strip_example: "re_sub_tags ''<p>Hi &amp; bye</p>'' = ''Hi &amp; bye''"
  by (simp add: match_tag_def)

lemma strip_example2: "re_sub_tags ''<b>hi</b>'' = ''hi''"
  by (simp add: match_tag_def)

lemma no_lt_not_open: "CHR ''<'' \<notin> set s \<Longrightarrow> \<not> open_tag s"
  by (auto simp: open_tag_def dest: set_takeWhileD)

lemma html_escape_meta:
  "c \<in> set html_meta \<Longrightarrow> \<exists>y. html_escape_char c = CHR ''&'' # y"
  by (auto simp: html_meta_def html_escape_char_def)

lemma cooked_unescape_mixed:
  assumes tbl: "h ''amp;'' = Some ''&''" "h ''lt;'' = Some ''<''" "h ''gt;'' = Some ''>''"
      "h ''quot;'' = Some [CHR 0x22]"
    and c: "c \<in> set html_meta"
    and outside: "\<not> open_tag pre \<or> CHR ''>'' \<notin> set post"
    and a: "html_unescape h (re_sub_tags pre) = Inr a"
    and b: "html_unescape h (re_sub_tags post) = Inr b"
  shows "cooked_unescape h (pre @ html_escape (c # m) @ post) = Inr (a @ c # m @ b)"
proof -
  let ?E = "html_escape (c # m)"
  have nm: "CHR ''<'' \<notin> set ?E" "CHR ''>'' \<notin> set ?E"
    using html_escape_no_meta [of "c # m"] by simp_all
  from outside nm(2) have "\<not> open_tag pre \<or> CHR ''>'' \<notin> set (?E @ post)"
    by auto
  then have "re_sub_tags (pre @ ?E @ post) = re_sub_tags pre @ re_sub_tags (?E @ post)"
    by (rule strip_append)
  also have "re_sub_tags (?E @ post) = re_sub_tags ?E @ re_sub_tags post"
    by (rule strip_append) (simp add: no_lt_not_open [OF nm(1)])
  also have "re_sub_tags ?E = ?E"
    by (rule strip_no_lt [OF nm(1)])
  finally have s: "re_sub_tags (pre @ ?E @ post) = re_sub_tags pre @ ?E @ re_sub_tags post" .
  from html_escape_meta [OF c] obtain y where "html_escape_char c = CHR ''&'' # y" ..
  then have e: "?E @ re_sub_tags post = CHR ''&'' # (y @ html_escape m @ re_sub_tags post)"
    by (simp add: html_escape_Cons)
  have 1: "charref_sub h (?E @ re_sub_tags post) = Inr ((c # m) @ b)"
    using charref_escaped_app [OF tbl, of "c # m" "re_sub_tags post"] b
    by (simp add: html_unescape_sub bind_err_Inr)
  have "charref_sub h (re_sub_tags pre @ CHR ''&'' # (y @ html_escape m @ re_sub_tags post))
          = Inr (a @ (c # m) @ b)"
    using a 1 unfolding charref_sub_app html_unescape_sub e by (simp add: bind_err_Inr)
  then show ?thesis
    by (simp only: cooked_unescape_def s html_unescape_sub e append_Cons append_assoc)
qed


section \<open>Theorems on escaping and sanitization\<close>

text \<open>
  C5, as it holds of the code. \<^verbatim>\<open>cooked_unescape\<close> applies \<^verbatim>\<open>html.unescape\<close> to what tag
  stripping leaves. It raises ValueError exactly when the stripped text holds a decimal
  character reference of more than 4300 digits, and returns a string otherwise; stripped
  text without an ampersand is returned as it is. The stripping keeps every character
  other than \<open><\<close>, drops a \<open><\<close> together with the characters up to the next \<open>>\<close>
  when at least one character lies between them, and keeps a \<open><\<close> that has no such
  continuation; no substring of its result matches \<^verbatim>\<open><[^>]+>\<close>. With the library's entry
  for \<open>amp;\<close>, \<^verbatim>\<open>cooked_unescape("<p>Hi &amp; bye</p>")\<close> is \<^verbatim>\<open>"Hi & bye"\<close>.
\<close>

theorem C5_cooked_unescape:
  assumes "html5 ''amp;'' = Some ''&''"
  shows "cooked_unescape html5 s = html_unescape html5 (re_sub_tags s)
    \<and> (if has_long_ref (re_sub_tags s) then cooked_unescape html5 s = Inl ValueError
        else (\<exists>out. cooked_unescape html5 s = Inr out))
    \<and> (CHR ''&'' \<notin> set (re_sub_tags s) \<longrightarrow> cooked_unescape html5 s = Inr (re_sub_tags s))
    \<and> re_sub_tags [] = []
    \<and> (c \<noteq> CHR ''<'' \<longrightarrow> re_sub_tags (c # t) = c # re_sub_tags t)
    \<and> (body \<noteq> [] \<and> CHR ''>'' \<notin> set body
          \<longrightarrow> re_sub_tags (CHR ''<'' # body @ CHR ''>'' # rest) = re_sub_tags rest)
    \<and> (t = [] \<or> hd t = CHR ''>'' \<or> CHR ''>'' \<notin> set t
          \<longrightarrow> re_sub_tags (CHR ''<'' # t) = CHR ''<'' # re_sub_tags t)
    \<and> (body \<noteq> [] \<and> CHR ''>'' \<notin> set body
          \<longrightarrow> re_sub_tags s \<noteq> pre @ CHR ''<'' # body @ CHR ''>'' # post)
    \<and> cooked_unescape html5 ''<p>Hi &amp; bye</p>'' = Inr ''Hi & bye''"
proof -
  have 1: "cooked_unescape html5 s = html_unescape html5 (re_sub_tags s)"
    by (simp add: cooked_unescape_def)
  have 2: "if has_long_ref (re_sub_tags s) then cooked_unescape html5 s = Inl ValueError
        else (\<exists>out. cooked_unescape html5 s = Inr out)"
    using html_unescape_result [of "re_sub_tags s" html5] by (simp add: cooked_unescape_def)
  have 3: "CHR ''&'' \<notin> set (re_sub_tags s) \<longrightarrow> cooked_unescape html5 s = Inr (re_sub_tags s)"
    by (simp add: cooked_unescape_def html_unescape_def)
  have 5: "c \<noteq> CHR ''<'' \<longrightarrow> re_sub_tags (c # t) = c # re_sub_tags t"
    by simp
  have 6: "body \<noteq> [] \<and> CHR ''>'' \<notin> set body
          \<longrightarrow> re_sub_tags (CHR ''<'' # body @ CHR ''>'' # rest) = re_sub_tags rest"
    using strip_tag [of body rest] by blast
  have 7: "t = [] \<or> hd t = CHR ''>'' \<or> CHR ''>'' \<notin> set t
          \<longrightarrow> re_sub_tags (CHR ''<'' # t) = CHR ''<'' # re_sub_tags t"
    using strip_lone [of t] by blast
  have 8: "body \<noteq> [] \<and> CHR ''>'' \<notin> set body
          \<longrightarrow> re_sub_tags s \<noteq> pre @ CHR ''<'' # body @ CHR ''>'' # post"
    using no_match_left [of body s pre post] by blast
  have "charref_sub html5 ''Hi &amp; bye'' = Inr ''Hi & bye''"
    using assms by (simp add: match_amp replace_charref_def bind_err_Inr)
  then have 9: "cooked_unescape html5 ''<p>Hi &amp; bye</p>'' = Inr ''Hi & bye''"
    by (simp only: cooked_unescape_def strip_example html_unescape_sub)
  from 1 2 3 5 6 7 8 9 show ?thesis by (simp only: re_sub_tags.simps(1) simp_thms)
qed

theorem C5_witness:
  "html5_excerpt ''amp;'' = Some ''&''
   \<and> \<not> has_long_ref (re_sub_tags ''a<i>b'')
   \<and> cooked_unescape html5_excerpt ''a<i>b'' = Inr ''ab''
   \<and> re_sub_tags (CHR ''x'' # ''<i>b'') = CHR ''x'' # re_sub_tags ''<i>b''
   \<and> re_sub_tags (CHR ''<'' # ''i'' @ CHR ''>'' # ''b'') = re_sub_tags ''b''
   \<and> re_sub_tags (CHR ''<'' # ''>a'') = CHR ''<'' # re_sub_tags ''>a''
   \<and> cooked_unescape html5_excerpt ''<p>Hi &amp; bye</p>'' = Inr ''Hi & bye''"
proof -
  have h: "html5_excerpt ''amp;'' = Some ''&''"
    by (simp add: html5_excerpt_def)
  have s: "re_sub_tags ''a<i>b'' = ''ab''"
    by (simp add: match_tag_def)
  from C5_cooked_unescape [of html5_excerpt "''a<i>b''" "CHR ''x''" "''<i>b''" "''i''" "''b''" "[]" "[]", OF h]
    C5_cooked_unescape [of html5_excerpt "''a<i>b''" "CHR ''x''" "''>a''" "''i''" "''b''" "[]" "[]", OF h]
    h s
  show ?thesis by (simp add: match_tag_def html_unescape_def)
qed


text \<open>
  C5 as the specification states it, for every input string, fails: a decimal character
  reference of 4301 digits makes \<^verbatim>\<open>html.unescape\<close>, and with it \<^verbatim>\<open>cooked_unescape\<close>,
  raise ValueError.
\<close>

theorem C5_counterexample:
  "cooked_unescape html5_excerpt (''&#'' @ replicate 4301 CHR ''1'') = Inl ValueError"
proof -
  have "CHR ''<'' \<notin> set (''&#'' @ replicate 4301 CHR ''1'')"
    by simp
  then have "re_sub_tags (''&#'' @ replicate 4301 CHR ''1'') = ''&#'' @ replicate 4301 CHR ''1''"
    by (rule strip_no_lt)
  moreover have "has_long_ref (''&#'' @ replicate 4301 CHR ''1'')"
    using long_ref_example_match by simp
  ultimately show ?thesis
    using html_unescape_result [of "''&#'' @ replicate 4301 CHR ''1''" html5_excerpt]
    by (simp only: cooked_unescape_def simp_thms)
qed


text \<open>
  C6. \<^verbatim>\<open>md_escape\<close> maps every character on its own: a backslash is put before each of
  \<open>* # / ( ) [ ] _\<close> and the backtick, \<open><\<close> and \<open>>\<close> become \<open>&lt;\<close> and
  \<open>&gt;\<close>, every other character stays. \<^verbatim>\<open>md_escape("a*b_c")\<close> is the string
  a, backslash, *, b, backslash, _, c.
\<close>

theorem C6_md_escape:
  "md_escape s = concat (map md_escape_char s) \<and>
   md_escape ''a*b_c'' = [CHR ''a'', CHR 0x5C, CHR ''*'', CHR ''b'', CHR 0x5C, CHR ''_'', CHR ''c'']"
proof
  show "md_escape s = concat (map md_escape_char s)"
    by (induction s) (simp_all add: md_escape_Nil md_escape_Cons)
  show "md_escape ''a*b_c'' = [CHR ''a'', CHR 0x5C, CHR ''*'', CHR ''b'', CHR 0x5C, CHR ''_'', CHR ''c'']"
    by (simp add: md_escape_Cons md_escape_Nil md_escape_char_def)
qed

theorem C6_witness:
  "md_escape ''<a>(#)'' = ''&lt;a&gt;'' @ [CHR 0x5C, CHR ''('', CHR 0x5C, CHR ''#'', CHR 0x5C, CHR '')'']"
  using C6_md_escape [of "''<a>(#)''"] by (simp add: md_escape_char_def)

text \<open>
  C10, as it holds of the code. Tags are stripped before entities are unescaped, so
  entity-encoded markup that does not lie inside a raw tag survives as literal text: for
  every input made of a text \<open>pre\<close>, the entity encoding of a text that begins with one
  of the five metacharacters, and a text \<open>post\<close>, where \<open>pre\<close> does not end inside an
  unclosed \<open><\<close> or \<open>post\<close> holds no \<open>>\<close>, the result is the unescaped stripped
  \<open>pre\<close>, the encoded text itself, and the unescaped stripped \<open>post\<close>.
  \<^verbatim>\<open>cooked_unescape("&lt;b&gt;hi&lt;/b&gt;")\<close> is \<^verbatim>\<open>"<b>hi</b>"\<close>, which stripping
  afterwards would turn into \<^verbatim>\<open>"hi"\<close>. The library's entries for the four named
  references are assumed of the table.
\<close>

theorem C10_entity_markup_survives:
  assumes "html5 ''amp;'' = Some ''&''" and "html5 ''lt;'' = Some ''<''"
    and "html5 ''gt;'' = Some ''>''" and "html5 ''quot;'' = Some [CHR 0x22]"
    and "c \<in> set html_meta"
    and "\<not> open_tag pre \<or> CHR ''>'' \<notin> set post"
    and "html_unescape html5 (re_sub_tags pre) = Inr a"
    and "html_unescape html5 (re_sub_tags post) = Inr b"
  shows "cooked_unescape html5 (pre @ html_escape (c # m) @ post) = Inr (a @ c # m @ b)
    \<and> cooked_unescape html5 ''&lt;b&gt;hi&lt;/b&gt;'' = Inr ''<b>hi</b>''
    \<and> re_sub_tags ''<b>hi</b>'' = ''hi''"
proof -
  have e: "html_escape ''<b>hi</b>'' = ''&lt;b&gt;hi&lt;/b&gt;''"
    by (simp add: html_escape_chars html_escape_char_def)
  have n: "html_unescape html5 (re_sub_tags []) = Inr []"
    by (simp add: html_unescape_def)
  have "cooked_unescape html5 ([] @ html_escape ''<b>hi</b>'' @ []) = Inr ([] @ ''<b>hi</b>'' @ [])"
    using cooked_unescape_mixed [of html5 "CHR ''<''" "[]" "[]" "[]" "[]" "''b>hi</b>''"] assms(1-4) n
    by (simp add: html_meta_def open_tag_Nil)
  then have "cooked_unescape html5 ''&lt;b&gt;hi&lt;/b&gt;'' = Inr ''<b>hi</b>''"
    by (simp only: e append_Nil append_Nil2)
  with cooked_unescape_mixed [OF assms] strip_example2 show ?thesis by (simp only: simp_thms)
qed

theorem C10_witness:
  "html5_excerpt ''amp;'' = Some ''&'' \<and> html5_excerpt ''lt;'' = Some ''<''
   \<and> html5_excerpt ''gt;'' = Some ''>'' \<and> html5_excerpt ''quot;'' = Some [CHR 0x22]
   \<and> CHR ''<'' \<in> set html_meta
   \<and> \<not> open_tag ''<u>x</u> ''
   \<and> html_unescape html5_excerpt (re_sub_tags ''<u>x</u> '') = Inr ''x ''
   \<and> html_unescape html5_excerpt (re_sub_tags '' <i>y</i>'') = Inr '' y''
   \<and> cooked_unescape html5_excerpt (''<u>x</u> '' @ ''&lt;b&gt;'' @ '' <i>y</i>'') = Inr ''x <b> y''"
proof -
  have h: "html5_excerpt ''amp;'' = Some ''&''" "html5_excerpt ''lt;'' = Some ''<''"
    "html5_excerpt ''gt;'' = Some ''>''" "html5_excerpt ''quot;'' = Some [CHR 0x22]"
    by (simp_all add: html5_excerpt_def)
  have c: "CHR ''<'' \<in> set html_meta"
    by (simp add: html_meta_def)
  have o: "\<not> open_tag ''<u>x</u> ''"
    by (simp add: open_tag_def)
  have a: "html_unescape html5_excerpt (re_sub_tags ''<u>x</u> '') = Inr ''x ''"
    by (simp add: match_tag_def html_unescape_def)
  have b: "html_unescape html5_excerpt (re_sub_tags '' <i>y</i>'') = Inr '' y''"
    by (simp add: match_tag_def html_unescape_def)
  have e: "html_escape ''<b>'' = ''&lt;b&gt;''"
    by (simp add: html_escape_chars html_escape_char_def)
  from C10_entity_markup_survives [OF h c disjI1 [OF o] a b, of "''b>''"] h c o a b
  show ?thesis by (simp add: e)
qed


text \<open>
  C10 as the specification states it, for every input, fails: entity-encoded markup inside
  a raw tag is removed with the tag.
\<close>

theorem C10_counterexample:
  "cooked_unescape html5_excerpt ''<a title=&lt;b&gt;>x</a>'' = Inr ''x''"
  by (simp add: cooked_unescape_def match_tag_def html_unescape_def)

section \<open>Properties of the IRC parser\<close>

subsection \<open>The plain text of a scan\<close>

lemma ctrl_distinct:
  "BOLD \<noteq> ITALIC" "BOLD \<noteq> UNDERLINE" "BOLD \<noteq> RESET" "BOLD \<noteq> COLOR"
  "ITALIC \<noteq> UNDERLINE" "ITALIC \<noteq> RESET" "ITALIC \<noteq> COLOR"
  "UNDERLINE \<noteq> RESET" "UNDERLINE \<noteq> COLOR" "RESET \<noteq> COLOR"
  by (simp_all add: BOLD_def ITALIC_def UNDERLINE_def RESET_def COLOR_def)

lemma toPlain_close_run: "toPlain (close_run st cur runs) = toPlain runs @ cur"
  by (simp add: close_run_def toPlain_def)

lemma plain_end: "toPlain (parse_scan st cur runs []) = toPlain runs @ cur"
  by (simp add: toPlain_def)

lemma plain_char:
  assumes "\<And>st cur runs. toPlain (parse_scan st cur runs s) = toPlain runs @ cur @ X"
    and "\<not> is_ctrl x"
  shows "toPlain (parse_scan st cur runs (x # s)) = toPlain runs @ cur @ x # X"
  using assms(2) by (simp add: is_ctrl_def assms(1))

lemma plain_text:
  assumes "\<And>st cur runs. toPlain (parse_scan st cur runs s) = toPlain runs @ cur @ X"
    and "list_all (\<lambda>x. \<not> is_ctrl x) t"
  shows "toPlain (parse_scan st cur runs (t @ s)) = toPlain runs @ cur @ t @ X"
  using assms(2)
proof (induction t arbitrary: st cur runs)
  case Nil
  show ?case by (simp add: assms(1))
next
  case (Cons x t)
  then have "\<not> is_ctrl x" and "list_all (\<lambda>x. \<not> is_ctrl x) t" by simp_all
  with Cons.IH show ?case
    using plain_char [of "t @ s" "t @ X" x st cur runs] by simp
qed

lemma plain_bold:
  assumes "\<And>st cur runs. toPlain (parse_scan st cur runs s) = toPlain runs @ cur @ X"
  shows "toPlain (parse_scan st cur runs (BOLD # s)) = toPlain runs @ cur @ X"
  by (simp add: assms toPlain_close_run)

lemma plain_italic:
  assumes "\<And>st cur runs. toPlain (parse_scan st cur runs s) = toPlain runs @ cur @ X"
  shows "toPlain (parse_scan st cur runs (ITALIC # s)) = toPlain runs @ cur @ X"
  by (simp add: assms toPlain_close_run ctrl_distinct ctrl_distinct [symmetric])

lemma plain_underline:
  assumes "\<And>st cur runs. toPlain (parse_scan st cur runs s) = toPlain runs @ cur @ X"
  shows "toPlain (parse_scan st cur runs (UNDERLINE # s)) = toPlain runs @ cur @ X"
  by (simp add: assms toPlain_close_run ctrl_distinct ctrl_distinct [symmetric])

lemma plain_reset:
  assumes "\<And>st cur runs. toPlain (parse_scan st cur runs s) = toPlain runs @ cur @ X"
  shows "toPlain (parse_scan st cur runs (RESET # s)) = toPlain runs @ cur @ X"
  by (simp add: assms toPlain_close_run ctrl_distinct ctrl_distinct [symmetric])

lemma plain_color:
  assumes "\<And>st cur runs. toPlain (parse_scan st cur runs (drop n s)) = toPlain runs @ cur @ X"
    and "color_args s = Some (c, n)"
  shows "toPlain (parse_scan st cur runs (COLOR # s)) = toPlain runs @ cur @ X"
  by (simp add: assms toPlain_close_run ctrl_distinct ctrl_distinct [symmetric])

subsection \<open>Colour arguments\<close>

lemma valid_index_cases:
  assumes "valid_index i"
  shows "i \<in> {0, 1, 2, 3, 4, 5, 6, 7, 8, 9, 10, 11, 12, 13, 14, 15, 16}"
proof -
  from assms have "0 \<le> i" and "i \<le> 16" by (simp_all add: valid_index_def)
  then show ?thesis by simp arith
qed

lemma str_int_values:
  "str_int 0 = ''0''" "str_int 1 = ''1''" "str_int 2 = ''2''" "str_int 3 = ''3''"
  "str_int 4 = ''4''" "str_int 5 = ''5''" "str_int 6 = ''6''" "str_int 7 = ''7''"
  "str_int 8 = ''8''" "str_int 9 = ''9''" "str_int 10 = ''10''" "str_int 11 = ''11''"
  "str_int 12 = ''12''" "str_int 13 = ''13''" "str_int 14 = ''14''" "str_int 15 = ''15''"
  "str_int 16 = ''16''"
  by code_simp+

lemma str_int_facts:
  assumes "valid_index i"
  shows "str_int i \<noteq> [] \<and> length (str_int i) \<le> 2 \<and> list_all is_digit (str_int i)
         \<and> int (int_of_digits 10 (str_int i)) = i"
  using valid_index_cases [OF assms]
  by (auto simp: str_int_values is_digit_def int_of_digits_def hex_value_def)

lemma take_digits_app:
  assumes "ds \<noteq> []" and "length ds \<le> 2" and "list_all is_digit ds"
    and "length ds = 2 \<or> s = [] \<or> \<not> is_digit (hd s)"
  shows "take_digits (ds @ s) = ds"
proof (cases ds)
  case Nil
  with assms(1) show ?thesis by simp
next
  case (Cons d ds')
  show ?thesis
  proof (cases ds')
    case Nil
    with Cons assms(3,4) show ?thesis
      by (cases s) (auto simp: take_digits_def)
  next
    case (Cons e ds'')
    with \<open>ds = d # ds'\<close> assms(2) have "ds = [d, e]" by simp
    with assms(3) show ?thesis by (simp add: take_digits_def)
  qed
qed

lemma take_digits_none: "s = [] \<or> \<not> is_digit (hd s) \<Longrightarrow> take_digits s = []"
  by (cases s) (auto simp: take_digits_def)

subsection \<open>Reading back a rendered run\<close>

lemma str_int_length:
  assumes "valid_index i"
  shows "length (str_int i) = (if i < 10 then 1 else 2)"
  using valid_index_cases [OF assms] by (auto simp: str_int_values)

lemma is_digit_comma: "\<not> is_digit CHR '',''"
  by (simp add: is_digit_def)

lemma is_digit_reset: "\<not> is_digit RESET"
  by (simp add: is_digit_def RESET_def)

lemma starts_digit_hd: "starts_digit s \<longleftrightarrow> s \<noteq> [] \<and> is_digit (hd s)"
  by (cases s) (simp_all add: starts_digit_def)

lemma starts_digit_app: "t \<noteq> [] \<Longrightarrow> starts_digit (t @ r) = starts_digit t"
  by (cases t) (simp_all add: starts_digit_def)

lemma starts_comma_digit_app:
  "t \<noteq> [] \<Longrightarrow> starts_comma_digit (t @ RESET # rest) = starts_comma_digit t"
proof (cases t)
  case Nil
  assume "t \<noteq> []"
  with Nil show ?thesis by simp
next
  case (Cons c t')
  then show ?thesis
    by (cases t') (simp_all add: starts_comma_digit_def starts_digit_def is_digit_reset)
qed

lemma color_args_fg:
  assumes "valid_index f" and "10 \<le> f \<or> \<not> starts_digit s" and "\<not> starts_comma_digit s"
  shows "color_args (str_int f @ s) = Some (Color f None, length (str_int f))"
proof -
  note F = str_int_facts [OF assms(1)]
  from assms(2) have "length (str_int f) = 2 \<or> s = [] \<or> \<not> is_digit (hd s)"
    using str_int_length [OF assms(1)] by (auto simp: starts_digit_hd)
  with F have td: "take_digits (str_int f @ s) = str_int f"
    by (intro take_digits_app) auto
  have b: "(case s of [] \<Rightarrow> [] | c # r \<Rightarrow> if c = CHR '','' then take_digits r else []) = []"
  proof (cases s)
    case Nil
    then show ?thesis by simp
  next
    case (Cons c r)
    with assms(3) have "c = CHR '','' \<Longrightarrow> r = [] \<or> \<not> is_digit (hd r)"
      by (auto simp: starts_comma_digit_def starts_digit_hd)
    with Cons show ?thesis by (auto simp: take_digits_none)
  qed
  from F assms(1) show ?thesis
    by (simp add: color_args_def td b Let_def valid_color_def Color_def)
qed

lemma color_args_bg:
  assumes "valid_index f" and "valid_index b" and "10 \<le> b \<or> \<not> starts_digit s"
  shows "color_args (str_int f @ CHR '','' # str_int b @ s)
           = Some (Color f (Some b), length (str_int f) + Suc (length (str_int b)))"
proof -
  note F = str_int_facts [OF assms(1)]
  note B = str_int_facts [OF assms(2)]
  from F have td: "take_digits (str_int f @ CHR '','' # str_int b @ s) = str_int f"
    by (intro take_digits_app) (auto simp: is_digit_comma)
  from assms(3) have "length (str_int b) = 2 \<or> s = [] \<or> \<not> is_digit (hd s)"
    using str_int_length [OF assms(2)] by (auto simp: starts_digit_hd)
  with B have tb: "take_digits (str_int b @ s) = str_int b"
    by (intro take_digits_app) auto
  from F B assms(1,2) show ?thesis
    by (simp add: color_args_def td tb Let_def valid_color_def Color_def)
qed

lemma plain_color_arg:
  assumes Q: "\<And>st cur runs. toPlain (parse_scan st cur runs (t @ RESET # rest)) = toPlain runs @ cur @ X"
    and "valid_color (Some c)" and "t \<noteq> []" and "\<not> absorbed c t"
  shows "toPlain (parse_scan st cur runs (COLOR # irc_color_arg c @ t @ RESET # rest))
           = toPlain runs @ cur @ X"
proof (cases "bg_truthy c")
  case False
  from assms(2) have f: "valid_index (fg c)" by (simp add: valid_color_def)
  from assms(4) False have "10 \<le> fg c \<or> \<not> starts_digit t" and "\<not> starts_comma_digit t"
    by (auto simp: absorbed_def last_number_def)
  with assms(3) have "10 \<le> fg c \<or> \<not> starts_digit (t @ RESET # rest)"
    and "\<not> starts_comma_digit (t @ RESET # rest)"
    by (simp_all add: starts_digit_app starts_comma_digit_app)
  from color_args_fg [OF f this]
  have "color_args (str_int (fg c) @ t @ RESET # rest) = Some (Color (fg c) None, length (str_int (fg c)))" .
  from plain_color [OF _ this] Q False show ?thesis
    by (simp add: irc_color_arg_def)
next
  case True
  then obtain j where j: "bg c = Some j"
    by (auto simp: bg_truthy_def split: option.splits)
  from assms(2) j have f: "valid_index (fg c)" and b: "valid_index j"
    by (simp_all add: valid_color_def)
  from assms(4) True j have "10 \<le> j \<or> \<not> starts_digit t"
    by (auto simp: absorbed_def last_number_def)
  with assms(3) have "10 \<le> j \<or> \<not> starts_digit (t @ RESET # rest)"
    by (simp add: starts_digit_app)
  from color_args_bg [OF f b this]
  have "color_args (str_int (fg c) @ CHR '','' # str_int j @ t @ RESET # rest)
          = Some (Color (fg c) (Some j), length (str_int (fg c)) + Suc (length (str_int j)))" .
  from plain_color [OF _ this] Q True j show ?thesis
    by (simp add: irc_color_arg_def)
qed

lemma plain_run:
  assumes Q: "\<And>st cur runs. toPlain (parse_scan st cur runs rest) = toPlain runs @ cur @ X"
    and safe: "roundtrip_safe (ts, t)" and ne: "t \<noteq> []"
  shows "toPlain (parse_scan st cur runs (irc_ctrl ts @ t @ RESET # rest)) = toPlain runs @ cur @ t @ X"
proof -
  from safe have nc: "list_all (\<lambda>x. \<not> is_ctrl x) t" and vc: "valid_color (color ts)"
    and sc: "\<And>c. color ts = Some c \<Longrightarrow> \<not> absorbed c t"
    by (simp_all add: roundtrip_safe_def)
  have Q1: "toPlain (parse_scan st cur runs (t @ RESET # rest)) = toPlain runs @ cur @ t @ X"
    for st cur runs
    by (rule plain_text [OF plain_reset [OF Q] nc])
  have Q2: "toPlain (parse_scan st cur runs
              ((if has_color ts then COLOR # irc_color_arg (the (color ts)) else []) @ t @ RESET # rest))
            = toPlain runs @ cur @ t @ X" for st cur runs
  proof (cases "has_color ts")
    case False
    then show ?thesis by (simp add: Q1)
  next
    case True
    then obtain c where c: "color ts = Some c" by (auto simp: has_color_def)
    from plain_color_arg [OF Q1 _ ne sc [OF c]] vc c True show ?thesis by simp
  qed
  have Q3: "toPlain (parse_scan st cur runs
              ((if is_underline ts then [UNDERLINE] else []) @
               (if has_color ts then COLOR # irc_color_arg (the (color ts)) else []) @ t @ RESET # rest))
            = toPlain runs @ cur @ t @ X" for st cur runs
    using plain_underline [OF Q2] by (simp add: Q2)
  have Q4: "toPlain (parse_scan st cur runs
              ((if is_italic ts then [ITALIC] else []) @
               (if is_underline ts then [UNDERLINE] else []) @
               (if has_color ts then COLOR # irc_color_arg (the (color ts)) else []) @ t @ RESET # rest))
            = toPlain runs @ cur @ t @ X" for st cur runs
    using plain_italic [OF Q3] by (simp add: Q3)
  have "toPlain (parse_scan st cur runs
              ((if is_bold ts then [BOLD] else []) @
               (if is_italic ts then [ITALIC] else []) @
               (if is_underline ts then [UNDERLINE] else []) @
               (if has_color ts then COLOR # irc_color_arg (the (color ts)) else []) @ t @ RESET # rest))
            = toPlain runs @ cur @ t @ X"
    using plain_bold [OF Q4] by (simp add: Q4)
  then show ?thesis by (simp add: irc_ctrl_def)
qed

lemma toPlain_Cons: "toPlain ((ts, t) # r) = t @ toPlain r"
  by (simp add: toPlain_def)

lemma plain_format:
  assumes "list_all roundtrip_safe r"
  shows "toPlain (parse_scan st cur runs (IRCHandle_formatRichText r)) = toPlain runs @ cur @ toPlain r"
  using assms
proof (induction r arbitrary: st cur runs)
  case Nil
  show ?case by (simp add: IRCHandle_formatRichText_def toPlain_def)
next
  case (Cons run r)
  obtain ts t where run: "run = (ts, t)" by (cases run)
  from Cons.prems run have safe: "roundtrip_safe (ts, t)" and rest: "list_all roundtrip_safe r"
    by simp_all
  note Q = Cons.IH [OF rest]
  show ?case
  proof (cases "t = []")
    case True
    with Q show ?thesis by (simp add: irc_format_Cons irc_step_def run toPlain_Cons)
  next
    case ne: False
    show ?thesis
    proof (cases "is_normal ts")
      case True
      from safe have "list_all (\<lambda>x. \<not> is_ctrl x) t" by (simp add: roundtrip_safe_def)
      from plain_text [OF Q this] ne True show ?thesis
        by (simp add: irc_format_Cons irc_step_def run toPlain_Cons)
    next
      case False
      from plain_run [OF Q safe ne] ne False show ?thesis
        by (simp add: irc_format_Cons irc_step_def run toPlain_Cons)
    qed
  qed
qed

lemma parse_scan_plain:
  "list_all (\<lambda>x. \<not> is_ctrl x) s \<Longrightarrow> parse_scan st cur runs s =
     (if cur @ s = [] \<and> runs \<noteq> [] then runs else runs @ [(st, cur @ s)])"
  by (induction s arbitrary: cur) (simp_all add: is_ctrl_def)

lemma parseIRC_plain:
  "list_all (\<lambda>x. \<not> is_ctrl x) s \<Longrightarrow> parseIRC s = [(normal_style, s)]"
  by (simp add: parseIRC_def parse_scan_plain)

subsection \<open>Runs that are not read back\<close>

lemma plain_color_none:
  assumes "\<And>st cur runs. toPlain (parse_scan st cur runs s) = toPlain runs @ cur @ X"
    and "color_args s = None"
  shows "toPlain (parse_scan st cur runs (COLOR # s)) = toPlain runs @ cur @ X"
  by (simp add: assms toPlain_close_run ctrl_distinct ctrl_distinct [symmetric])

lemma plain_tail:
  assumes "list_all (\<lambda>x. \<not> is_ctrl x) t"
  shows "toPlain (parse_scan st cur runs (t @ [RESET])) = toPlain runs @ cur @ t @ []"
  by (rule plain_text [OF plain_reset [OF plain_end [THEN trans]] assms]) simp

lemma plain_dropped_tail:
  assumes "list_all (\<lambda>x. \<not> is_ctrl x) t"
  shows "toPlain (parse_scan st cur runs (drop k (t @ [RESET]))) = toPlain runs @ cur @ drop k t"
proof (cases "k \<le> length t")
  case True
  from assms have "list_all (\<lambda>x. \<not> is_ctrl x) (drop k t)"
    by (auto simp: list_all_iff dest: in_set_dropD)
  from plain_tail [OF this] True show ?thesis by simp
next
  case False
  then have "drop k (t @ [RESET]) = []" and "drop k t = []" by simp_all
  then show ?thesis by (simp only: plain_end append_Nil2)
qed

lemma plain_ctrl_prefix:
  assumes Q: "\<And>st cur runs. toPlain (parse_scan st cur runs
              ((if has_color ts then COLOR # irc_color_arg (the (color ts)) else []) @ s))
            = toPlain runs @ cur @ Y"
  shows "toPlain (parse_scan st cur runs (irc_ctrl ts @ s)) = toPlain runs @ cur @ Y"
proof -
  have Q3: "toPlain (parse_scan st cur runs
              ((if is_underline ts then [UNDERLINE] else []) @
               (if has_color ts then COLOR # irc_color_arg (the (color ts)) else []) @ s))
            = toPlain runs @ cur @ Y" for st cur runs
    using plain_underline [OF Q] by (simp add: Q)
  have Q4: "toPlain (parse_scan st cur runs
              ((if is_italic ts then [ITALIC] else []) @
               (if is_underline ts then [UNDERLINE] else []) @
               (if has_color ts then COLOR # irc_color_arg (the (color ts)) else []) @ s))
            = toPlain runs @ cur @ Y" for st cur runs
    using plain_italic [OF Q3] by (simp add: Q3)
  have "toPlain (parse_scan st cur runs
              ((if is_bold ts then [BOLD] else []) @
               (if is_italic ts then [ITALIC] else []) @
               (if is_underline ts then [UNDERLINE] else []) @
               (if has_color ts then COLOR # irc_color_arg (the (color ts)) else []) @ s))
            = toPlain runs @ cur @ Y"
    using plain_bold [OF Q4] by (simp add: Q4)
  then show ?thesis by (simp add: irc_ctrl_def)
qed

lemma plain_no_ctrl:
  "set (toPlain (parse_scan st cur runs s))
     \<subseteq> set (toPlain runs) \<union> set cur \<union> {x \<in> set s. \<not> is_ctrl x}"
proof (induction st cur runs s rule: parse_scan.induct)
  case (1 style cur runs)
  show ?case by (auto simp: toPlain_def)
next
  case (2 style cur runs x s)
  have cr: "set (toPlain (close_run style cur runs)) = set (toPlain runs) \<union> set cur"
    by (simp add: toPlain_close_run)
  consider "x = BOLD" | "x = ITALIC" | "x = UNDERLINE" | "x = RESET" | "x = COLOR"
    | "\<not> is_ctrl x"
    by (auto simp: is_ctrl_def)
  then show ?case
  proof cases
    case 1
    with 2(1) [OF 1] cr show ?thesis by auto
  next
    case 2
    with "2.IH"(2) [OF _ 2] cr show ?thesis
      by (auto simp: ctrl_distinct ctrl_distinct [symmetric])
  next
    case 3
    with "2.IH"(3) [OF _ _ 3] cr show ?thesis
      by (auto simp: ctrl_distinct ctrl_distinct [symmetric])
  next
    case 4
    with "2.IH"(4) [OF _ _ _ 4] cr show ?thesis
      by (auto simp: ctrl_distinct ctrl_distinct [symmetric])
  next
    case 5
    have d: "BOLD \<noteq> COLOR" "ITALIC \<noteq> COLOR" "UNDERLINE \<noteq> COLOR" "RESET \<noteq> COLOR"
      "COLOR \<noteq> BOLD" "COLOR \<noteq> ITALIC" "COLOR \<noteq> UNDERLINE" "COLOR \<noteq> RESET"
      by (simp_all add: ctrl_distinct ctrl_distinct [symmetric])
    show ?thesis
    proof (cases "color_args s")
      case None
      from "2.IH"(5) [OF d(5-8) [unfolded 5 [symmetric]] 5 None] cr 5 None show ?thesis
        by (auto simp: d)
    next
      case (Some cn)
      obtain c n where cn: "cn = (c, n)" by (cases cn)
      from "2.IH"(6) [OF d(5-8) [unfolded 5 [symmetric]] 5 Some cn [symmetric]] cr 5 Some cn
      show ?thesis
        by (auto simp: d dest: in_set_dropD)
    qed
  next
    case 6
    then have "x \<noteq> BOLD" "x \<noteq> ITALIC" "x \<noteq> UNDERLINE" "x \<noteq> RESET" "x \<noteq> COLOR"
      by (auto simp: is_ctrl_def)
    with "2.IH"(7) [OF this] 6 show ?thesis by auto
  qed
qed

lemma color_args_amount:
  assumes "color_args s = Some (c, n)"
  shows "n = length (take_digits s) +
           (let b = (case drop (length (take_digits s)) s of
                       [] \<Rightarrow> []
                     | c # r \<Rightarrow> if c = CHR '','' then take_digits r else [])
            in if b = [] then 0 else Suc (length b))"
  using assms by (auto simp: color_args_def Let_def split: if_splits)

lemma take_digits_two:
  "is_digit a \<Longrightarrow> is_digit b \<Longrightarrow> take_digits (a # b # s) = [a, b]"
  by (simp add: take_digits_def)

lemma take_digits_nonempty: "is_digit a \<Longrightarrow> take_digits (a # s) \<noteq> []"
  by (simp add: take_digits_def)

lemma str_int_one_digit:
  assumes "valid_index i" and "i < 10"
  shows "\<exists>d. str_int i = [d] \<and> is_digit d"
  using valid_index_cases [OF assms(1)] assms(2)
  by (auto simp: str_int_values is_digit_def)

lemma absorbed_amount:
  assumes v: "valid_color (Some c)" and ab: "absorbed c t"
    and m: "color_args (irc_color_arg c @ t @ [RESET]) = Some (c', n)"
  shows "length (irc_color_arg c) < n"
proof (cases "bg_truthy c")
  case False
  from v have f: "valid_index (fg c)" by (simp add: valid_color_def)
  note F = str_int_facts [OF f]
  from False have arg: "irc_color_arg c = str_int (fg c)" by (simp add: irc_color_arg_def)
  from ab False consider "fg c < 10" "starts_digit t" | "starts_comma_digit t"
    by (auto simp: absorbed_def last_number_def)
  then show ?thesis
  proof cases
    case 1
    from str_int_one_digit [OF f 1(1)] obtain d where d: "str_int (fg c) = [d]" "is_digit d"
      by auto
    from 1(2) obtain e t' where t: "t = e # t'" "is_digit e"
      by (cases t) (auto simp: starts_digit_def)
    have "take_digits (irc_color_arg c @ t @ [RESET]) = [d, e]"
      using d t by (simp add: arg take_digits_two)
    with color_args_amount [OF m] d show ?thesis by (simp add: arg Let_def)
  next
    case 2
    then obtain e t' where t: "t = CHR '','' # e # t'" "is_digit e"
      by (cases t; cases "tl t") (auto simp: starts_comma_digit_def starts_digit_def)
    from F have td: "take_digits (irc_color_arg c @ t @ [RESET]) = str_int (fg c)"
      unfolding arg t by (intro take_digits_app) (auto simp: is_digit_comma)
    from t have "take_digits (e # t' @ [RESET]) \<noteq> []"
      by (simp add: take_digits_nonempty)
    with color_args_amount [OF m] td t show ?thesis
      by (simp add: arg Let_def)
  qed
next
  case True
  then obtain j where j: "bg c = Some j"
    by (auto simp: bg_truthy_def split: option.splits)
  from v j have f: "valid_index (fg c)" and b: "valid_index j"
    by (simp_all add: valid_color_def)
  note F = str_int_facts [OF f]
  from True j have arg: "irc_color_arg c = str_int (fg c) @ CHR '','' # str_int j"
    by (simp add: irc_color_arg_def)
  from ab True j have "j < 10" and "starts_digit t"
    by (auto simp: absorbed_def last_number_def)
  from str_int_one_digit [OF b \<open>j < 10\<close>] obtain d where d: "str_int j = [d]" "is_digit d"
    by auto
  from \<open>starts_digit t\<close> obtain e t' where t: "t = e # t'" "is_digit e"
    by (cases t) (auto simp: starts_digit_def)
  from F have td: "take_digits (irc_color_arg c @ t @ [RESET]) = str_int (fg c)"
    unfolding arg by (simp only: append_assoc append_Cons) (intro take_digits_app, auto simp: is_digit_comma)
  have "take_digits (d # e # t' @ [RESET]) = [d, e]"
    using d t by (simp add: take_digits_two)
  with color_args_amount [OF m] td d t show ?thesis
    by (simp add: arg Let_def)
qed

lemma digit_not_ctrl: "is_digit x \<Longrightarrow> \<not> is_ctrl x"
  by (auto simp: is_digit_def is_ctrl_def BOLD_def ITALIC_def UNDERLINE_def RESET_def COLOR_def)

lemma comma_not_ctrl: "\<not> is_ctrl CHR '',''"
  by (simp add: is_ctrl_def BOLD_def ITALIC_def UNDERLINE_def RESET_def COLOR_def)

lemma color_arg_plain:
  assumes "valid_color (Some c)"
  shows "list_all (\<lambda>x. \<not> is_ctrl x) (irc_color_arg c) \<and> irc_color_arg c \<noteq> []"
proof -
  from assms have f: "valid_index (fg c)" by (simp add: valid_color_def)
  have d: "list_all (\<lambda>x. \<not> is_ctrl x) (str_int i) \<and> str_int i \<noteq> []" if "valid_index i" for i
    using str_int_facts [OF that] by (auto simp: list_all_iff digit_not_ctrl)
  show ?thesis
  proof (cases "bg_truthy c")
    case False
    with d [OF f] show ?thesis by (simp add: irc_color_arg_def)
  next
    case True
    then obtain j where j: "bg c = Some j"
      by (auto simp: bg_truthy_def split: option.splits)
    with assms have "valid_index j" by (simp add: valid_color_def)
    with d [OF f] d [of j] True j show ?thesis
      by (simp add: irc_color_arg_def comma_not_ctrl)
  qed
qed

lemma absorbed_plain:
  assumes v: "valid_color (Some c)" and ab: "absorbed c t" and ne: "t \<noteq> []"
    and nc: "list_all (\<lambda>x. \<not> is_ctrl x) t"
  shows "\<exists>Y. Y \<noteq> t \<and> (\<forall>st cur runs.
            toPlain (parse_scan st cur runs (COLOR # irc_color_arg c @ t @ [RESET]))
              = toPlain runs @ cur @ Y)"
proof (cases "color_args (irc_color_arg c @ t @ [RESET])")
  case None
  from color_arg_plain [OF v] nc
  have p: "list_all (\<lambda>x. \<not> is_ctrl x) (irc_color_arg c @ t)" and a: "irc_color_arg c \<noteq> []"
    by simp_all
  have "toPlain (parse_scan st cur runs (COLOR # irc_color_arg c @ t @ [RESET]))
          = toPlain runs @ cur @ irc_color_arg c @ t" for st cur runs
    using plain_color_none [OF _ None, of "irc_color_arg c @ t" st cur runs] plain_tail [OF p]
    by simp
  moreover from a have "irc_color_arg c @ t \<noteq> t" by simp
  ultimately show ?thesis by blast
next
  case (Some cn)
  obtain c' n where cn: "cn = (c', n)" by (cases cn)
  with Some have m: "color_args (irc_color_arg c @ t @ [RESET]) = Some (c', n)" by simp
  from absorbed_amount [OF v ab m] have n: "length (irc_color_arg c) < n" .
  define k where "k = n - length (irc_color_arg c)"
  from n have k: "0 < k" and d: "drop n (irc_color_arg c @ t @ [RESET]) = drop k (t @ [RESET])"
    by (simp_all add: k_def)
  have "toPlain (parse_scan st cur runs (COLOR # irc_color_arg c @ t @ [RESET]))
          = toPlain runs @ cur @ drop k t" for st cur runs
    using plain_color [OF _ m, of "drop k t" st cur runs] plain_dropped_tail [OF nc, of _ _ _ k]
    by (simp only: d)
  moreover from ne have "0 < length t" by simp
  from diff_less [OF k this] have "length (drop k t) \<noteq> length t" by simp
  then have "drop k t \<noteq> t" by (rule contrapos_nn) (rule arg_cong)
  ultimately show ?thesis by blast
qed

lemma unsafe_run_fails:
  assumes v: "valid_color (color ts)" and ne: "t \<noteq> []" and unsafe: "\<not> roundtrip_safe (ts, t)"
  shows "toPlain (parseIRC (IRCHandle_formatRichText [(ts, t)])) \<noteq> toPlain [(ts, t)]"
proof (cases "list_all (\<lambda>x. \<not> is_ctrl x) t")
  case False
  then obtain x where x: "x \<in> set t" "is_ctrl x"
    by (auto simp: list_all_iff)
  have "x \<notin> set (toPlain (parseIRC (IRCHandle_formatRichText [(ts, t)])))"
    using plain_no_ctrl [of normal_style "[]" "[]" "IRCHandle_formatRichText [(ts, t)]"] x(2)
    by (auto simp: parseIRC_def toPlain_def)
  moreover from x(1) have "x \<in> set (toPlain [(ts, t)])" by (simp add: toPlain_def)
  ultimately show ?thesis by metis
next
  case nc: True
  with v unsafe obtain c where c: "color ts = Some c" and ab: "absorbed c t"
    by (auto simp: roundtrip_safe_def split: option.splits)
  from c have hc: "has_color ts" and nn: "\<not> is_normal ts"
    by (simp_all add: has_color_def is_normal_def)
  from v c have vc: "valid_color (Some c)" by simp
  from absorbed_plain [OF vc ab ne nc] obtain Y where Y: "Y \<noteq> t"
    and Q: "\<And>st cur runs. toPlain (parse_scan st cur runs (COLOR # irc_color_arg c @ t @ [RESET]))
              = toPlain runs @ cur @ Y"
    by blast
  have e: "(if has_color ts then COLOR # irc_color_arg (the (color ts)) else []) @ t @ [RESET]
             = COLOR # irc_color_arg c @ t @ [RESET]"
    using hc c by simp
  have "toPlain (parse_scan st cur runs (irc_ctrl ts @ t @ [RESET])) = toPlain runs @ cur @ Y"
    for st cur runs
    by (rule plain_ctrl_prefix) (simp only: e Q)
  then have "toPlain (parseIRC (irc_ctrl ts @ t @ [RESET])) = Y"
    by (simp add: parseIRC_def toPlain_def)
  moreover have "IRCHandle_formatRichText [(ts, t)] = irc_ctrl ts @ t @ [RESET]"
    using ne nn by (simp add: IRCHandle_formatRichText_def irc_step_def)
  ultimately show ?thesis using Y by (simp add: toPlain_def)
qed

section \<open>Theorems on the IRC adapter\<close>

text \<open>
  C1, as it holds of \<^verbatim>\<open>IRCHandle.formatRichText\<close> and the parser of section 4.2. For
  every RichText whose run texts hold no IRC control character, whose colour indices are
  in the palette range, and in which no coloured run has a text that the parser reads as
  part of the colour code, rendering it to the IRC control-code format and parsing the
  result back yields a RichText with the same plain text. The parser reads the text of a
  coloured run as part of the colour code in two cases: the text begins with a decimal
  digit and the last number the renderer writes for the run (the background when it is
  written, the foreground otherwise) has one digit; or the text begins with a comma and a
  digit and the renderer writes no background. The condition is exact for a single run:
  a run with a colour in range and a non-empty text that does not meet it does not come
  back with the same plain text.
\<close>

theorem C1_irc_roundtrip_plain:
  "(list_all roundtrip_safe r \<longrightarrow> toPlain (parseIRC (IRCHandle_formatRichText r)) = toPlain r)
   \<and> (valid_color (color ts) \<and> t \<noteq> [] \<and> \<not> roundtrip_safe (ts, t)
        \<longrightarrow> toPlain (parseIRC (IRCHandle_formatRichText [(ts, t)])) \<noteq> toPlain [(ts, t)])"
proof -
  have "toPlain (parseIRC (IRCHandle_formatRichText r)) = toPlain r" if "list_all roundtrip_safe r"
    using plain_format [OF that, of normal_style "[]" "[]"] by (simp add: parseIRC_def toPlain_def)
  with unsafe_run_fails [of ts t] show ?thesis by blast
qed

theorem C1_witness:
  "list_all roundtrip_safe
     [(normal_style, ''[bob] ''),
      (\<lparr>bold = True, italic = False, underline = True, color = Some (Color 4 (Some 12))\<rparr>, ''7,5z''),
      (\<lparr>bold = False, italic = False, underline = False, color = Some (Color 10 None)\<rparr>, ''2z'')]
   \<and> IRCHandle_formatRichText
     [(normal_style, ''[bob] ''),
      (\<lparr>bold = True, italic = False, underline = True, color = Some (Color 4 (Some 12))\<rparr>, ''7,5z''),
      (\<lparr>bold = False, italic = False, underline = False, color = Some (Color 10 None)\<rparr>, ''2z'')]
     = ''[bob] '' @ [BOLD, UNDERLINE, COLOR] @ ''4,127,5z'' @ [RESET, COLOR] @ ''102z'' @ [RESET]
   \<and> toPlain (parseIRC (''[bob] '' @ [BOLD, UNDERLINE, COLOR] @ ''4,127,5z'' @ [RESET, COLOR]
                            @ ''102z'' @ [RESET])) = ''[bob] 7,5z2z''
   \<and> valid_color (color \<lparr>bold = False, italic = False, underline = False, color = Some (Color 4 None)\<rparr>)
   \<and> \<not> roundtrip_safe (\<lparr>bold = False, italic = False, underline = False, color = Some (Color 4 None)\<rparr>, ''2z'')
   \<and> toPlain (parseIRC (IRCHandle_formatRichText
        [(\<lparr>bold = False, italic = False, underline = False, color = Some (Color 4 None)\<rparr>, ''2z'')]))
       \<noteq> ''2z''"
proof -
  let ?r = "[(normal_style, ''[bob] ''),
      (\<lparr>bold = True, italic = False, underline = True, color = Some (Color 4 (Some 12))\<rparr>, ''7,5z''),
      (\<lparr>bold = False, italic = False, underline = False, color = Some (Color 10 None)\<rparr>, ''2z'')]"
  let ?u = "\<lparr>bold = False, italic = False, underline = False, color = Some (Color 4 None)\<rparr>"
  have s: "list_all roundtrip_safe ?r"
    by (simp add: roundtrip_safe_def is_ctrl_def BOLD_def ITALIC_def UNDERLINE_def RESET_def
        COLOR_def normal_style_def valid_color_def Color_def valid_index_def
        absorbed_def last_number_def bg_truthy_def starts_digit_def starts_comma_digit_def
        is_digit_def)
  have f: "IRCHandle_formatRichText ?r
             = ''[bob] '' @ [BOLD, UNDERLINE, COLOR] @ ''4,127,5z'' @ [RESET, COLOR] @ ''102z'' @ [RESET]"
    by (simp add: IRCHandle_formatRichText_def irc_step_def normal_style_def is_normal_def
        irc_ctrl_def is_bold_def is_italic_def is_underline_def has_color_def irc_color_arg_def
        bg_truthy_def Color_def str_int_values)
  have v: "valid_color (color ?u)"
    by (simp add: valid_color_def Color_def valid_index_def)
  have n: "\<not> roundtrip_safe (?u, ''2z'')"
    by (simp add: roundtrip_safe_def Color_def absorbed_def last_number_def bg_truthy_def
        starts_digit_def is_digit_def)
  from C1_irc_roundtrip_plain [of ?r ?u "''2z''"] s f v n show ?thesis
    by (simp add: toPlain_def)
qed

text \<open>
  C1 as the specification states it, for every RichText, fails, and each clause of the
  condition above is needed. The renderer emits the text of a run as it is and does not
  pad the colour number: a normal run whose text is the bold control character comes back
  with empty plain text; colour 4 before the text \<open>2z\<close> is written as \<open>42z\<close>, which names
  no palette entry and comes back as the text \<open>42z\<close>; colour 1 before \<open>2z\<close> is written as
  \<open>12z\<close> and comes back as \<open>z\<close> in colour 12; colour 4 before \<open>,5z\<close> is written as
  \<open>4,5z\<close> and comes back as \<open>z\<close> in colour 4 on 5.
\<close>

theorem C1_counterexample:
  "toPlain (parseIRC (IRCHandle_formatRichText [(normal_style, [BOLD])])) = []
   \<and> toPlain [(normal_style, [BOLD])] = [BOLD]
   \<and> toPlain (parseIRC (IRCHandle_formatRichText
        [(\<lparr>bold = False, italic = False, underline = False, color = Some (Color 4 None)\<rparr>, ''2z'')]))
       = ''42z''
   \<and> toPlain (parseIRC (IRCHandle_formatRichText
        [(\<lparr>bold = False, italic = False, underline = False, color = Some (Color 1 None)\<rparr>, ''2z'')]))
       = ''z''
   \<and> toPlain (parseIRC (IRCHandle_formatRichText
        [(\<lparr>bold = False, italic = False, underline = False, color = Some (Color 4 None)\<rparr>, '',5z'')]))
       = ''z''"
proof -
  have 1: "toPlain (parseIRC (IRCHandle_formatRichText [(normal_style, [BOLD])])) = []
           \<and> toPlain [(normal_style, [BOLD])] = [BOLD]"
    by (simp add: IRCHandle_formatRichText_def irc_step_def normal_style_def is_normal_def
        parseIRC_def toPlain_def close_run_def)
  have r: "IRCHandle_formatRichText
        [(\<lparr>bold = False, italic = False, underline = False, color = Some (Color f None)\<rparr>, t)]
      = (if t = [] then [] else COLOR # str_int f @ t @ [RESET])" for f t
    by (simp add: IRCHandle_formatRichText_def irc_step_def is_normal_def irc_ctrl_def is_bold_def
        is_italic_def is_underline_def has_color_def irc_color_arg_def bg_truthy_def Color_def)
  have d: "COLOR \<noteq> BOLD" "COLOR \<noteq> ITALIC" "COLOR \<noteq> UNDERLINE" "COLOR \<noteq> RESET"
    "CHR ''2'' \<notin> {BOLD, ITALIC, UNDERLINE, RESET, COLOR}"
    "CHR ''4'' \<notin> {BOLD, ITALIC, UNDERLINE, RESET, COLOR}"
    "CHR ''z'' \<notin> {BOLD, ITALIC, UNDERLINE, RESET, COLOR}"
    "RESET \<noteq> BOLD" "RESET \<noteq> ITALIC" "RESET \<noteq> UNDERLINE"
    by (simp_all add: BOLD_def ITALIC_def UNDERLINE_def RESET_def COLOR_def)
  have a1: "color_args (''42z'' @ [RESET]) = None"
    by (simp add: color_args_def take_digits_def is_digit_def int_of_digits_def hex_value_def
        valid_color_def Color_def valid_index_def RESET_def Let_def)
  have a2: "color_args (''12z'' @ [RESET]) = Some (Color 12 None, 2)"
    by (simp add: color_args_def take_digits_def is_digit_def int_of_digits_def hex_value_def
        valid_color_def Color_def valid_index_def RESET_def Let_def)
  have a3: "color_args (''4,5z'' @ [RESET]) = Some (Color 4 (Some 5), 3)"
    by (simp add: color_args_def take_digits_def is_digit_def int_of_digits_def hex_value_def
        valid_color_def Color_def valid_index_def RESET_def Let_def)
  have 2: "toPlain (parseIRC (COLOR # ''42z'' @ [RESET])) = ''42z''"
    using d a1 by (simp add: parseIRC_def toPlain_def close_run_def)
  have 3: "toPlain (parseIRC (COLOR # ''12z'' @ [RESET])) = ''z''"
    using d a2 by (simp add: parseIRC_def toPlain_def close_run_def)
  have 4: "toPlain (parseIRC (COLOR # ''4,5z'' @ [RESET])) = ''z''"
    using d a3 by (simp add: parseIRC_def toPlain_def close_run_def)
  from 1 2 3 4 show ?thesis by (simp add: r str_int_values)
qed


text \<open>
  C4. Every Message that \<^verbatim>\<open>on_privmsg\<close> or \<^verbatim>\<open>on_pubmsg\<close> hands to the bus and whose
  \<^verbatim>\<open>rich_text\<close> is present has \<^verbatim>\<open>rich_text.toPlain()\<close> equal to its \<^verbatim>\<open>content\<close>,
  whatever the parser returns.
\<close>

theorem C4_rich_text_plain:
  assumes "on_privmsg parse is_cmd now blacklist ev = Inr (Some msg)
           \<or> on_pubmsg parse is_cmd now blacklist ev = Inr (Some msg)"
    and "rich_text msg = Some rt"
  shows "toPlain rt = content msg"
proof -
  from assms(1) have m: "on_privmsg parse is_cmd now blacklist ev = Inr (Some msg)"
    by (simp add: on_pubmsg_def)
  then obtain a as where a: "arguments ev = a # as"
    by (cases "arguments ev") (auto simp: on_privmsg_def Let_def split: if_splits)
  from m a have "content msg = toPlain (parse a)"
    and "rich_text msg = None \<or> rich_text msg = Some (parse a)"
    by (auto simp: on_privmsg_def Let_def split: if_splits)
  with assms(2) show ?thesis by auto
qed

theorem C4_witness:
  "on_privmsg (\<lambda>s. [(\<lparr>bold = True, italic = False, underline = False, color = None\<rparr>, s)])
     (\<lambda>c. False) (''2016-01-01'', ''12:00'') [''spammer'']
     \<lparr>source = ''alice!alice@host'', target = ''#room'', arguments = [''hello'']\<rparr>
   = Inr (Some \<lparr>channel = IRC, sender = ''alice'', receiver = ''#room'', content = ''hello'',
                mtype = Text, date = ''2016-01-01'', time = ''12:00'',
                rich_text = Some [(\<lparr>bold = True, italic = False, underline = False, color = None\<rparr>, ''hello'')]\<rparr>)
   \<and> toPlain [(\<lparr>bold = True, italic = False, underline = False, color = None\<rparr>, ''hello'')] = ''hello''"
proof -
  let ?p = "\<lambda>s::string. [(\<lparr>bold = True, italic = False, underline = False, color = None\<rparr>, s)]"
  let ?ev = "\<lparr>source = ''alice!alice@host'', target = ''#room'', arguments = [''hello'']\<rparr>"
  let ?m = "\<lparr>channel = IRC, sender = ''alice'', receiver = ''#room'', content = ''hello'',
                mtype = Text, date = ''2016-01-01'', time = ''12:00'',
                rich_text = Some [(\<lparr>bold = True, italic = False, underline = False, color = None\<rparr>, ''hello'')]\<rparr>"
  have e: "on_privmsg ?p (\<lambda>c. False) (''2016-01-01'', ''12:00'') [''spammer''] ?ev = Inr (Some ?m)"
    by (simp add: on_privmsg_def Let_def toPlain_def is_normal_def)
  have "rich_text ?m = Some [(\<lparr>bold = True, italic = False, underline = False, color = None\<rparr>, ''hello'')]"
    by simp
  from C4_rich_text_plain [OF disjI1 [OF e] this] e show ?thesis by simp
qed

end
